theory Spec2Isabelle
  imports Main
begin

section \<open>JavaScript strings\<close>

text \<open>
  A JavaScript string is modelled as a \<^typ>\<open>string\<close>, one \<^typ>\<open>char\<close> per code unit, which
  covers the code units 0 to 255. Of the characters that \<^verbatim>\<open>\s\<close> and \<^verbatim>\<open>trim()\<close> treat as
  white space, these seven lie in that range: tab, line feed, vertical tab, form feed,
  carriage return, space and the no-break space.
\<close>

definition is_ws :: "char \<Rightarrow> bool" where
  "is_ws c = (c \<in> set [CHR 0x09, CHR 0x0A, CHR 0x0B, CHR 0x0C, CHR 0x0D, CHR 0x20, CHR 0xA0])"

definition dquote :: char where "dquote = CHR 0x22"
definition squote :: char where "squote = CHR 0x27"

definition js_trim :: "string \<Rightarrow> string" where
  "js_trim s = rev (dropWhile is_ws (rev (dropWhile is_ws s)))"

text \<open>\<^verbatim>\<open>s.slice(a, b)\<close>: a negative index counts from the end, both are clamped.\<close>

definition js_slice :: "string \<Rightarrow> int \<Rightarrow> int \<Rightarrow> string" where
  "js_slice s a b =
     (let n = int (length s);
          from = (if a < 0 then max (n + a) 0 else min a n);
          to = (if b < 0 then max (n + b) 0 else min b n)
      in take (nat (to - from)) (drop (nat from) s))"

definition js_slice_from :: "string \<Rightarrow> int \<Rightarrow> string" where
  "js_slice_from s a = js_slice s a (int (length s))"

text \<open>\<^verbatim>\<open>s.substring(a, b)\<close>: both indices are clamped to the string, then ordered.\<close>

definition js_substring :: "string \<Rightarrow> int \<Rightarrow> int \<Rightarrow> string" where
  "js_substring s a b =
     (let n = int (length s);
          a' = min (max a 0) n;
          b' = min (max b 0) n;
          from = min a' b';
          to = max a' b'
      in take (nat (to - from)) (drop (nat from) s))"

definition js_startsWith :: "string \<Rightarrow> string \<Rightarrow> bool" where
  "js_startsWith s p = (take (length p) s = p)"

definition js_endsWith :: "string \<Rightarrow> string \<Rightarrow> bool" where
  "js_endsWith s p = (length p \<le> length s \<and> drop (length s - length p) s = p)"

text \<open>\<^verbatim>\<open>s.indexOf(p)\<close>: the first index at which \<open>p\<close> occurs, or -1.\<close>

fun index_from :: "nat \<Rightarrow> string \<Rightarrow> string \<Rightarrow> int" where
  "index_from i p [] = (if p = [] then int i else -1)"
| "index_from i p (c # cs) =
     (if js_startsWith (c # cs) p then int i else index_from (Suc i) p cs)"

definition js_indexOf :: "string \<Rightarrow> string \<Rightarrow> int" where
  "js_indexOf s p = index_from 0 p s"

definition js_includes :: "string \<Rightarrow> string \<Rightarrow> bool" where
  "js_includes s p = (js_indexOf s p \<noteq> -1)"

text \<open>\<^verbatim>\<open>xs.join(",")\<close> on an array of strings.\<close>

fun js_join :: "string list \<Rightarrow> string" where
  "js_join [] = []"
| "js_join [x] = x"
| "js_join (x # y # ys) = x @ '','' @ js_join (y # ys)"

section \<open>Plain objects as ordered property lists\<close>

text \<open>
  The attribute object \<^verbatim>\<open>attrs = {}\<close> is a list of (key, value) pairs in the order in which
  \<^verbatim>\<open>for (const key in props)\<close> visits own properties: keys that are array indices first, in
  ascending numeric order, then the other keys in the order of their creation. An
  assignment to an existing key keeps its place. An assignment of a string to the key
  \<^verbatim>\<open>__proto__\<close> reaches the setter of \<^verbatim>\<open>Object.prototype\<close>, which ignores a value that is
  neither an object nor null, so no property is created.
\<close>

type_synonym obj = "(string \<times> string) list"

definition is_digit :: "char \<Rightarrow> bool" where
  "is_digit c = ((of_char CHR ''0'' :: nat) \<le> of_char c \<and> (of_char c :: nat) \<le> of_char CHR ''9'')"

definition digits_val :: "string \<Rightarrow> int" where
  "digits_val k = foldl (\<lambda>n c. 10 * n + (of_char c - of_char CHR ''0'')) 0 k"

definition is_array_index :: "string \<Rightarrow> bool" where
  "is_array_index k =
     (k \<noteq> [] \<and> list_all is_digit k \<and> (length k = 1 \<or> hd k \<noteq> CHR ''0'')
      \<and> digits_val k < 4294967295)"

fun ins_index :: "string \<Rightarrow> string \<Rightarrow> obj \<Rightarrow> obj" where
  "ins_index k v [] = [(k, v)]"
| "ins_index k v ((k', v') # ps) =
     (if is_array_index k' \<and> digits_val k' < digits_val k
      then (k', v') # ins_index k v ps
      else (k, v) # (k', v') # ps)"

definition obj_set :: "string \<Rightarrow> string \<Rightarrow> obj \<Rightarrow> obj" where
  "obj_set k v ps =
     (if k = ''__proto__'' then ps
      else if map_of ps k \<noteq> None
        then map (\<lambda>(k', v'). if k' = k then (k', v) else (k', v')) ps
      else if is_array_index k then ins_index k v ps
      else ps @ [(k, v)])"

section \<open>html-parser.js: parseProps\<close>

text \<open>
  The scanner of \<^verbatim>\<open>parseProps\<close> reads the raw attribute string one character at a time.
  Its local variables are the fields of \<open>pp_state\<close>; \<open>pp_step\<close> is the body of the
  \<^verbatim>\<open>for\<close> loop, with the branches in the order of the source.
\<close>

record pp_state =
  attrs :: obj
  currentKey :: string
  currentValue :: string
  inQuotes :: bool
  quoteType :: string
  inBraces :: bool
  isParsingValue :: bool

definition pp_init :: pp_state where
  "pp_init = \<lparr>attrs = [], currentKey = [], currentValue = [], inQuotes = False,
              quoteType = [], inBraces = False, isParsingValue = False\<rparr>"

text \<open>
  The value as it is stored: trimmed, without its first and last character when it
  starts with an opening brace, and trimmed again.
\<close>

definition stored_value :: "string \<Rightarrow> string" where
  "stored_value v =
     (let v1 = js_trim v;
          v2 = (if v1 \<noteq> [] \<and> hd v1 = CHR ''{'' then js_slice v1 1 (- 1) else v1)
      in js_trim v2)"

definition pp_store :: "pp_state \<Rightarrow> obj" where
  "pp_store st = obj_set (js_trim (currentKey st)) (stored_value (currentValue st)) (attrs st)"

definition pp_step :: "pp_state \<Rightarrow> char \<Rightarrow> pp_state" where
  "pp_step st c =
     (if inQuotes st then
        (if [c] = quoteType st
         then st\<lparr>inQuotes := False, currentValue := currentValue st @ [c]\<rparr>
         else st\<lparr>currentValue := currentValue st @ [c]\<rparr>)
      else if inBraces st then
        (if c = CHR ''}''
         then st\<lparr>inBraces := False, currentValue := currentValue st @ [c]\<rparr>
         else st\<lparr>currentValue := currentValue st @ [c]\<rparr>)
      else if c = CHR ''='' then st\<lparr>isParsingValue := True\<rparr>
      else if c = dquote \<or> c = squote then
        st\<lparr>inQuotes := True, quoteType := [c], currentValue := currentValue st @ [c]\<rparr>
      else if c = CHR ''{'' then
        st\<lparr>inBraces := True, currentValue := currentValue st @ [c]\<rparr>
      else if c = CHR '' '' \<and> isParsingValue st \<and> js_trim (currentValue st) \<noteq> [] then
        st\<lparr>attrs := pp_store st, currentKey := [], currentValue := [],
           isParsingValue := False\<rparr>
      else if isParsingValue st then st\<lparr>currentValue := currentValue st @ [c]\<rparr>
      else st\<lparr>currentKey := currentKey st @ [c]\<rparr>)"

definition pp_scan :: "pp_state \<Rightarrow> string \<Rightarrow> pp_state" where
  "pp_scan st s = foldl pp_step st s"

definition pp_finish :: "pp_state \<Rightarrow> obj" where
  "pp_finish st =
     (if js_trim (currentKey st) \<noteq> [] \<and> js_trim (currentValue st) \<noteq> []
      then pp_store st else attrs st)"

definition parseProps :: "string \<Rightarrow> obj" where
  "parseProps propsString = pp_finish (pp_scan pp_init propsString)"

section \<open>Regular expressions\<close>

text \<open>
  The patterns of the source are values of \<open>regex\<close>, and \<open>rmatch\<close> is a backtracking
  matcher: from a position it returns every way in which the pattern can match, in the
  order in which a backtracking engine tries them, so the head of the list is the match
  that JavaScript reports. A matching state is the position, the input that is left and
  the captures made so far (the latest first, so that a group inside a quantifier reads
  as its last iteration). The patterns of the source have no flag but \<^verbatim>\<open>g\<close> and \<^verbatim>\<open>s\<close>: \<open>Bol\<close> and
  \<open>Eol\<close> are the start and the end of the input.
\<close>

datatype cclass = CChar char | CRange char char | CSpace | CNonSpace

fun in_cclass :: "cclass \<Rightarrow> char \<Rightarrow> bool" where
  "in_cclass (CChar a) c = (c = a)"
| "in_cclass (CRange a b) c =
     ((of_char a :: nat) \<le> of_char c \<and> (of_char c :: nat) \<le> of_char b)"
| "in_cclass CSpace c = is_ws c"
| "in_cclass CNonSpace c = (\<not> is_ws c)"

datatype regex =
    Lit char
  | Cls "cclass list"
  | NCls "cclass list"
  | Eps
  | Seq regex regex
  | Alt regex regex
  | Star regex
  | LazyStar regex
  | Group nat regex
  | Backref nat
  | Bol
  | Eol

type_synonym mstate = "nat \<times> string \<times> (nat \<times> string) list"

text \<open>
  A quantifier runs its body again only from a state that has consumed input (an
  iteration that matches the empty string is rejected), so the number of iterations is at
  most the length of the input that is left: that length is the first argument.
\<close>

fun star_greedy :: "nat \<Rightarrow> (mstate \<Rightarrow> mstate list) \<Rightarrow> mstate \<Rightarrow> mstate list" where
  "star_greedy 0 f st = [st]"
| "star_greedy (Suc n) f st =
     concat (map (\<lambda>st'. if length (fst (snd st')) < length (fst (snd st))
                          then star_greedy n f st' else []) (f st)) @ [st]"

fun star_lazy :: "nat \<Rightarrow> (mstate \<Rightarrow> mstate list) \<Rightarrow> mstate \<Rightarrow> mstate list" where
  "star_lazy 0 f st = [st]"
| "star_lazy (Suc n) f st =
     st # concat (map (\<lambda>st'. if length (fst (snd st')) < length (fst (snd st))
                               then star_lazy n f st' else []) (f st))"

fun rmatch :: "regex \<Rightarrow> mstate \<Rightarrow> mstate list" where
  "rmatch (Lit c) (p, s, cs) =
     (case s of [] \<Rightarrow> [] | x # xs \<Rightarrow> if x = c then [(Suc p, xs, cs)] else [])"
| "rmatch (Cls K) (p, s, cs) =
     (case s of [] \<Rightarrow> []
      | x # xs \<Rightarrow> if list_ex (\<lambda>k. in_cclass k x) K then [(Suc p, xs, cs)] else [])"
| "rmatch (NCls K) (p, s, cs) =
     (case s of [] \<Rightarrow> []
      | x # xs \<Rightarrow> if list_ex (\<lambda>k. in_cclass k x) K then [] else [(Suc p, xs, cs)])"
| "rmatch Eps st = [st]"
| "rmatch (Seq a b) st = concat (map (rmatch b) (rmatch a st))"
| "rmatch (Alt a b) st = rmatch a st @ rmatch b st"
| "rmatch (Star r) st = star_greedy (length (fst (snd st))) (rmatch r) st"
| "rmatch (LazyStar r) st = star_lazy (length (fst (snd st))) (rmatch r) st"
| "rmatch (Group n r) (p, s, cs) =
     map (\<lambda>(p', s', cs'). (p', s', (n, take (p' - p) s) # cs')) (rmatch r (p, s, cs))"
| "rmatch (Backref n) (p, s, cs) =
     (case map_of cs n of
        None \<Rightarrow> [(p, s, cs)]
      | Some w \<Rightarrow>
          if take (length w) s = w then [(p + length w, drop (length w) s, cs)] else [])"
| "rmatch Bol (p, s, cs) = (if p = 0 then [(p, s, cs)] else [])"
| "rmatch Eol (p, s, cs) = (if s = [] then [(p, s, cs)] else [])"

definition Plus :: "regex \<Rightarrow> regex" where
  "Plus r = Seq r (Star r)"

definition Opt :: "regex \<Rightarrow> regex" where
  "Opt r = Alt r Eps"

fun Seqs :: "regex list \<Rightarrow> regex" where
  "Seqs [] = Eps"
| "Seqs [r] = r"
| "Seqs (r # rs) = Seq r (Seqs rs)"

text \<open>The leftmost match: the pattern is tried at each start position in turn.\<close>

fun search :: "regex \<Rightarrow> nat \<Rightarrow> string \<Rightarrow> (nat \<times> mstate) option" where
  "search r p s =
     (case rmatch r (p, s, []) of
        st # _ \<Rightarrow> Some (p, st)
      | [] \<Rightarrow> (case s of [] \<Rightarrow> None | c # cs \<Rightarrow> search r (Suc p) cs))"

record rx_match =
  m_index :: nat
  m_text :: string
  m_groups :: "(nat \<times> string) list"

text \<open>
  \<^verbatim>\<open>re.exec(data)\<close> for a pattern with the \<^verbatim>\<open>g\<close> flag reads and writes \<^verbatim>\<open>re.lastIndex\<close>:
  the search starts there; a match moves it to the end of the match, a failure sets it
  to 0. The second component of the result is the new \<^verbatim>\<open>lastIndex\<close>.
\<close>

definition exec :: "regex \<Rightarrow> string \<Rightarrow> nat \<Rightarrow> rx_match option \<times> nat" where
  "exec r data lastIndex =
     (if lastIndex > length data then (None, 0)
      else case search r lastIndex (drop lastIndex data) of
             None \<Rightarrow> (None, 0)
           | Some (i, (e, rest, cs)) \<Rightarrow>
               (Some \<lparr>m_index = i, m_text = take (e - i) (drop i data), m_groups = cs\<rparr>, e))"

text \<open>A pattern without the \<^verbatim>\<open>g\<close> flag is searched from the start and keeps no state.\<close>

definition rx_test :: "regex \<Rightarrow> string \<Rightarrow> bool" where
  "rx_test r s = (search r 0 s \<noteq> None)"

subsection \<open>The pattern of html-parser.js\<close>

text \<open>
  \<^verbatim>\<open>{(?:[^{}]|\{(?:[^{}]|\{[^{}]*\})*\})*}\<close>, the brace-delimited attribute value with up
  to two inner levels of braces.
\<close>

definition not_brace :: regex where
  "not_brace = NCls [CChar CHR ''{'', CChar CHR ''}'']"

definition brace_value :: regex where
  "brace_value =
     Seqs [Lit CHR ''{'',
           Star (Alt not_brace
                     (Seqs [Lit CHR ''{'',
                            Star (Alt not_brace
                                      (Seqs [Lit CHR ''{'', Star not_brace, Lit CHR ''}''])),
                            Lit CHR ''}''])),
           Lit CHR ''}'']"

text \<open>
  \<^verbatim>\<open>(\s+[^=<>/\s]+(?:\s*=\s*(?:"[^"]*"|'[^']*'|{...}))?)\<close>, one attribute.
\<close>

definition attr_pattern :: regex where
  "attr_pattern =
     Group 1 (Seqs [
       Plus (Cls [CSpace]),
       Plus (NCls [CChar CHR ''='', CChar CHR ''<'', CChar CHR ''>'', CChar CHR ''/'', CSpace]),
       Opt (Seqs [Star (Cls [CSpace]), Lit CHR ''='', Star (Cls [CSpace]),
                  Alt (Seqs [Lit dquote, Star (NCls [CChar dquote]), Lit dquote])
                 (Alt (Seqs [Lit squote, Star (NCls [CChar squote]), Lit squote])
                      brace_value)])])"

text \<open>
  \<^verbatim>\<open>/<\/?[A-Za-z][A-Za-z0-9]*(...)*\s*\/?>/g\<close>
\<close>

definition kMarkupPattern :: regex where
  "kMarkupPattern =
     Seqs [Lit CHR ''<'',
           Opt (Lit CHR ''/''),
           Cls [CRange CHR ''A'' CHR ''Z'', CRange CHR ''a'' CHR ''z''],
           Star (Cls [CRange CHR ''A'' CHR ''Z'', CRange CHR ''a'' CHR ''z'',
                      CRange CHR ''0'' CHR ''9'']),
           Star attr_pattern,
           Star (Cls [CSpace]),
           Opt (Lit CHR ''/''),
           Lit CHR ''>'']"

section \<open>html-parser.js: handleJSXTag\<close>

record jsx_info =
  tagName :: string
  props :: string
  isSelfClosed :: bool
  closed :: bool

definition handleJSXTag :: "string \<Rightarrow> jsx_info" where
  "handleJSXTag input =
     (let trimmed = js_trim input in
      if js_startsWith trimmed ''</'' then
        \<lparr>tagName = js_trim (js_slice trimmed 2 (js_indexOf trimmed ''>'')),
         props = [], isSelfClosed = False, closed = True\<rparr>
      else
        let selfClosed = js_endsWith trimmed ''/>'';
            innerContent = js_trim (js_slice trimmed 1 (if selfClosed then - 2 else - 1));
            spaceIndex = js_indexOf innerContent '' ''
        in if spaceIndex = - 1 then
             \<lparr>tagName = innerContent, props = [], isSelfClosed = selfClosed, closed = False\<rparr>
           else
             \<lparr>tagName = js_slice innerContent 0 spaceIndex,
              props = js_trim (js_slice_from innerContent (spaceIndex + 1)),
              isSelfClosed = selfClosed, closed = False\<rparr>)"

section \<open>html-parser.js: the node classes and parse\<close>

text \<open>
  \<^verbatim>\<open>parse\<close> builds the tree by mutating objects that it also holds in \<^verbatim>\<open>stack\<close> and
  \<^verbatim>\<open>currentParent\<close>, so the objects live in a store: a list of cells, an object being
  its index. \<open>TextCell\<close> is a \<^verbatim>\<open>TextNode\<close> with its text; \<open>ElemCell\<close> is an \<^verbatim>\<open>HTMLElement\<close>
  with its \<^verbatim>\<open>tagName\<close> (\<open>None\<close> is \<^verbatim>\<open>null\<close>, the root), its \<^verbatim>\<open>attrs\<close> and its
  \<^verbatim>\<open>childNodes\<close>. The fields \<^verbatim>\<open>rawAttrs\<close>, \<^verbatim>\<open>id\<close>, \<^verbatim>\<open>classNames\<close> and \<^verbatim>\<open>parentNode\<close> are
  written and never read by \<^verbatim>\<open>parse\<close> or by the translator; they are left out.
  A variable that holds \<^verbatim>\<open>undefined\<close> is \<open>None\<close>.
\<close>

datatype js_error =
    TypeError
  | UnbalancedTagError

text \<open>
  \<open>TypeError\<close> is what a property read on \<^verbatim>\<open>undefined\<close> or \<^verbatim>\<open>null\<close> throws;
  \<open>UnbalancedTagError\<close> is \<^verbatim>\<open>throw Error("Input string label can't be closed")\<close>.
\<close>

datatype cell =
    TextCell string
  | ElemCell "string option" obj "nat list"

record parse_state =
  heap :: "cell list"
  currentParent :: "nat option"
  stack :: "nat list"
  lastTextPos :: int

definition parse_init :: parse_state where
  "parse_init = \<lparr>heap = [ElemCell None [] []], currentParent = Some 0, stack = [0],
                 lastTextPos = - 1\<rparr>"

text \<open>
  \<^verbatim>\<open>currentParent.appendChild(node)\<close> for a node that has just been created: the node goes
  to the end of the store and its address to the end of the parent's \<^verbatim>\<open>childNodes\<close>.
  The call throws when \<^verbatim>\<open>currentParent\<close> is \<^verbatim>\<open>undefined\<close>.
\<close>

definition appendChild :: "nat option \<Rightarrow> cell \<Rightarrow> cell list \<Rightarrow> js_error + cell list" where
  "appendChild parent node h =
     (case parent of
        None \<Rightarrow> Inl TypeError
      | Some a \<Rightarrow>
          if a < length h then
            (case h ! a of
               ElemCell t at ch \<Rightarrow> Inr ((h @ [node])[a := ElemCell t at (ch @ [length h])])
             | TextCell _ \<Rightarrow> Inl TypeError)
          else Inl TypeError)"

text \<open>\<^verbatim>\<open>currentParent.tagName\<close>, as the argument of \<^verbatim>\<open>includes\<close>: \<^verbatim>\<open>null\<close> reads "null".\<close>

definition tagName_of :: "nat option \<Rightarrow> cell list \<Rightarrow> js_error + string" where
  "tagName_of parent h =
     (case parent of
        None \<Rightarrow> Inl TypeError
      | Some a \<Rightarrow>
          if a < length h then
            (case h ! a of
               ElemCell t at ch \<Rightarrow> Inr (case t of None \<Rightarrow> ''null'' | Some n \<Rightarrow> n)
             | TextCell _ \<Rightarrow> Inr ''undefined'')
          else Inl TypeError)"

text \<open>
  The text between the previous tag and this one, appended when there is any
  (lines 116 to 124).
\<close>

definition parse_text :: "string \<Rightarrow> rx_match \<Rightarrow> nat \<Rightarrow> parse_state \<Rightarrow> js_error + parse_state" where
  "parse_text data m lastIndex st =
     (if lastTextPos st > - 1 \<and> lastTextPos st + int (length (m_text m)) < int lastIndex then
        (case appendChild (currentParent st)
                (TextCell (js_substring data (lastTextPos st)
                             (int lastIndex - int (length (m_text m))))) (heap st) of
           Inl e \<Rightarrow> Inl e
         | Inr h \<Rightarrow> Inr (st\<lparr>heap := h\<rparr>))
      else Inr st)"

text \<open>
  The tag itself (lines 127 to 144). After a close tag that is accepted the source
  assigns \<^verbatim>\<open>stack.back\<close>, which is not a property of a JavaScript array: the value is
  \<^verbatim>\<open>undefined\<close>.
\<close>

definition parse_tag :: "rx_match \<Rightarrow> parse_state \<Rightarrow> js_error + parse_state" where
  "parse_tag m st =
     (let info = handleJSXTag (m_text m) in
      if closed info then
        (case tagName_of (currentParent st) (heap st) of
           Inl e \<Rightarrow> Inl e
         | Inr name \<Rightarrow>
             if js_includes (m_text m) name
             then Inr (st\<lparr>stack := butlast (stack st), currentParent := None\<rparr>)
             else Inl UnbalancedTagError)
      else
        (case appendChild (currentParent st)
                (ElemCell (Some (tagName info)) (parseProps (props info)) []) (heap st) of
           Inl e \<Rightarrow> Inl e
         | Inr h \<Rightarrow>
             if \<not> isSelfClosed info
             then Inr (st\<lparr>heap := h, currentParent := Some (length (heap st)),
                          stack := stack st @ [length (heap st)]\<rparr>)
             else Inr (st\<lparr>heap := h\<rparr>)))"

definition parse_body :: "string \<Rightarrow> rx_match \<Rightarrow> nat \<Rightarrow> parse_state \<Rightarrow> js_error + parse_state" where
  "parse_body data m lastIndex st =
     (case parse_text data m lastIndex st of
        Inl e \<Rightarrow> Inl e
      | Inr st1 \<Rightarrow> parse_tag m (st1\<lparr>lastTextPos := int lastIndex\<rparr>))"

text \<open>
  The \<^verbatim>\<open>for\<close> loop of \<^verbatim>\<open>parse\<close>: \<^verbatim>\<open>kMarkupPattern.exec(data)\<close> until it fails. The third
  argument is \<^verbatim>\<open>kMarkupPattern.lastIndex\<close>, a property of the pattern object of the
  module, which outlives the call: the loop starts from the value it finds and the
  result gives the value it leaves. The loop ends because every match of the pattern
  starts with \<^verbatim>\<open><\<close>, so \<^verbatim>\<open>lastIndex\<close> grows.
\<close>

lemma star_greedy_pos:
  assumes f: "\<And>st st'. st' \<in> set (f st) \<Longrightarrow> fst st \<le> fst st'"
  shows "st' \<in> set (star_greedy n f st) \<Longrightarrow> fst st \<le> fst st'"
proof (induction n arbitrary: st)
  case 0
  then show ?case by simp
next
  case (Suc n)
  from Suc.prems consider "st' = st"
    | st1 where "st1 \<in> set (f st)" "st' \<in> set (star_greedy n f st1)"
    by (auto split: if_splits)
  then show ?case
  proof cases
    case 1
    then show ?thesis by simp
  next
    case 2
    from f[OF 2(1)] Suc.IH[OF 2(2)] show ?thesis by simp
  qed
qed

lemma star_lazy_pos:
  assumes f: "\<And>st st'. st' \<in> set (f st) \<Longrightarrow> fst st \<le> fst st'"
  shows "st' \<in> set (star_lazy n f st) \<Longrightarrow> fst st \<le> fst st'"
proof (induction n arbitrary: st)
  case 0
  then show ?case by simp
next
  case (Suc n)
  from Suc.prems consider "st' = st"
    | st1 where "st1 \<in> set (f st)" "st' \<in> set (star_lazy n f st1)"
    by (auto split: if_splits)
  then show ?case
  proof cases
    case 1
    then show ?thesis by simp
  next
    case 2
    from f[OF 2(1)] Suc.IH[OF 2(2)] show ?thesis by simp
  qed
qed

lemma rmatch_pos: "st' \<in> set (rmatch r st) \<Longrightarrow> fst st \<le> fst st'"
proof (induction r arbitrary: st st')
  case (Lit c)
  then show ?case by (cases st) (auto split: list.splits if_splits)
next
  case (Cls K)
  then show ?case by (cases st) (auto split: list.splits if_splits)
next
  case (NCls K)
  then show ?case by (cases st) (auto split: list.splits if_splits)
next
  case Eps
  then show ?case by simp
next
  case (Seq a b)
  then obtain st1 where "st1 \<in> set (rmatch a st)" "st' \<in> set (rmatch b st1)" by auto
  with Seq.IH show ?case by (meson le_trans)
next
  case (Alt a b)
  from Alt.prems have "st' \<in> set (rmatch a st) \<or> st' \<in> set (rmatch b st)" by simp
  with Alt.IH show ?case by blast
next
  case (Star r)
  then show ?case using star_greedy_pos[of "rmatch r"] by simp
next
  case (LazyStar r)
  then show ?case using star_lazy_pos[of "rmatch r"] by simp
next
  case (Group n r)
  then show ?case by (cases st) auto
next
  case (Backref n)
  then show ?case by (cases st) (auto split: option.splits if_splits)
next
  case Bol
  then show ?case by (cases st) (auto split: if_splits)
next
  case Eol
  then show ?case by (cases st) (auto split: if_splits)
qed

lemma search_pos:
  "search r p s = Some (i, st') \<Longrightarrow> p \<le> i \<and> (\<exists>s'. st' \<in> set (rmatch r (i, s', [])))"
proof (induction r p s rule: search.induct)
  case (1 r p s)
  show ?case
  proof (cases "rmatch r (p, s, [])")
    case Nil
    with "1.prems" obtain c cs where s: "s = c # cs" and "search r (Suc p) cs = Some (i, st')"
      by (cases s) auto
    with "1.IH"[OF Nil s] show ?thesis by auto
  next
    case (Cons a list)
    with "1.prems" have "i = p" "st' = a" by auto
    with Cons show ?thesis by (metis list.set_intros(1) order_refl)
  qed
qed

lemma exec_progress:
  assumes "exec (Seq (Lit c) r) data lastIndex = (Some m, e)"
  shows "lastIndex < e \<and> lastIndex \<le> length data"
proof -
  from assms have le: "lastIndex \<le> length data"
    by (auto simp: exec_def split: if_splits)
  from assms le obtain i rest cs where
    s: "search (Seq (Lit c) r) lastIndex (drop lastIndex data) = Some (i, (e, rest, cs))"
    by (auto simp: exec_def split: option.splits prod.splits)
  from search_pos[OF s] obtain s' where i: "lastIndex \<le> i"
    and mem: "(e, rest, cs) \<in> set (rmatch (Seq (Lit c) r) (i, s', []))" by auto
  from mem obtain st1 where a: "st1 \<in> set (rmatch (Lit c) (i, s', []))"
    and b: "(e, rest, cs) \<in> set (rmatch r st1)" by auto
  from a have "fst st1 = Suc i" by (auto split: list.splits if_splits)
  with rmatch_pos[OF b] i show ?thesis using le by simp
qed

lemma kMarkupPattern_progress:
  "exec kMarkupPattern data lastIndex = (Some m, e) \<Longrightarrow> lastIndex < e \<and> lastIndex \<le> length data"
  unfolding kMarkupPattern_def Seqs.simps by (rule exec_progress)

function parse_loop :: "string \<Rightarrow> parse_state \<Rightarrow> nat \<Rightarrow> (js_error + parse_state) \<times> nat" where
  "parse_loop data st lastIndex =
     (case exec kMarkupPattern data lastIndex of
        (None, li) \<Rightarrow> (Inr st, li)
      | (Some m, li) \<Rightarrow>
          (case parse_body data m li st of
             Inl e \<Rightarrow> (Inl e, li)
           | Inr st' \<Rightarrow> parse_loop data st' li))"
  by pat_completeness auto
termination
proof (relation "measure (\<lambda>(data, st, lastIndex). Suc (length data) - lastIndex)")
  show "wf (measure (\<lambda>(data, st, lastIndex). Suc (length data) - lastIndex))" by simp
next
  fix data st lastIndex x1 x2 m st'
  assume "(x1, x2) = exec kMarkupPattern data lastIndex" "x1 = Some m"
  then have "exec kMarkupPattern data lastIndex = (Some m, x2)" by simp
  from kMarkupPattern_progress[OF this]
  have "lastIndex < x2" "lastIndex \<le> length data" by simp_all
  then show "((data, st', x2), data, st, lastIndex)
        \<in> measure (\<lambda>(data, st, lastIndex). Suc (length data) - lastIndex)"
    by simp
qed


datatype node =
    TextNode string
  | HTMLElement "string option" obj "node list"

text \<open>
  The tree that a reader of the returned root sees: the object at an address with, in
  place of the addresses of its children, the children themselves. A child is created
  after its parent, so a descent visits at most as many objects as the store holds;
  the result is \<open>None\<close> only for an address outside the store or a descent that is longer.
\<close>

fun node_at :: "nat \<Rightarrow> cell list \<Rightarrow> nat \<Rightarrow> node option" where
  "node_at 0 h a = None"
| "node_at (Suc n) h a =
     (if a < length h then
        (case h ! a of
           TextCell t \<Rightarrow> Some (TextNode t)
         | ElemCell t at ch \<Rightarrow>
             (case those (map (node_at n h) ch) of
                None \<Rightarrow> None
              | Some ks \<Rightarrow> Some (HTMLElement t at ks)))
      else None)"

text \<open>
  \<^verbatim>\<open>parse(data)\<close>, started with \<^verbatim>\<open>kMarkupPattern.lastIndex = lastIndex\<close>: the root that is
  returned or the error that is thrown, and the \<^verbatim>\<open>lastIndex\<close> that is left behind.
\<close>

definition parse :: "string \<Rightarrow> nat \<Rightarrow> ((js_error + node) \<times> nat) option" where
  "parse data lastIndex =
     (case parse_loop data parse_init lastIndex of
        (Inl e, li) \<Rightarrow> Some (Inl e, li)
      | (Inr st, li) \<Rightarrow>
          (case node_at (length (heap st)) (heap st) 0 of
             None \<Rightarrow> None
           | Some root \<Rightarrow> Some (Inr root, li)))"

section \<open>The translator\<close>

subsection \<open>stringify\<close>

definition stringify :: "obj \<Rightarrow> string" where
  "stringify ps = ''{'' @ js_join (map (\<lambda>(key, element). key @ '':'' @ element) ps) @ ''}''"

subsection \<open>parseText\<close>

text \<open>\<^verbatim>\<open>/\{([a-zA-Z0-9]+)\}/gs\<close>\<close>

definition JSX_INTERPOLATION :: regex where
  "JSX_INTERPOLATION =
     Seqs [Lit CHR ''{'',
           Group 1 (Plus (Cls [CRange CHR ''a'' CHR ''z'', CRange CHR ''A'' CHR ''Z'',
                               CRange CHR ''0'' CHR ''9''])),
           Lit CHR ''}'']"

text \<open>\<^verbatim>\<open>/^\{[^}]+\}$/\<close>\<close>

definition single_marker :: regex where
  "single_marker = Seqs [Bol, Lit CHR ''{'', Plus (NCls [CChar CHR ''}'']), Lit CHR ''}'', Eol]"

text \<open>\<^verbatim>\<open>rawText.replace(/\s+/g, " ")\<close>: every maximal run of white space becomes one space.\<close>

fun collapse_run :: "bool \<Rightarrow> string \<Rightarrow> string" where
  "collapse_run in_run [] = []"
| "collapse_run in_run (c # cs) =
     (if is_ws c then (if in_run then collapse_run True cs else CHR '' '' # collapse_run True cs)
      else c # collapse_run False cs)"

definition collapse_ws :: "string \<Rightarrow> string" where
  "collapse_ws s = collapse_run False s"

definition backtick :: "string \<Rightarrow> string" where
  "backtick s = ''`'' @ s @ ''`''"

text \<open>\<^verbatim>\<open>match[1]\<close>; an \<^verbatim>\<open>undefined\<close> element of an array is joined as the empty string.\<close>

definition group1 :: "rx_match \<Rightarrow> string" where
  "group1 m = (case map_of (m_groups m) 1 of None \<Rightarrow> [] | Some v \<Rightarrow> v)"

text \<open>
  The \<^verbatim>\<open>while\<close> loop of \<^verbatim>\<open>parseText\<close>. Its arguments are \<^verbatim>\<open>JSX_INTERPOLATION.lastIndex\<close>,
  the local \<^verbatim>\<open>lastIndex\<close> and \<^verbatim>\<open>parts\<close>.
\<close>

lemma JSX_INTERPOLATION_progress:
  "exec JSX_INTERPOLATION s lastIndex = (Some m, e) \<Longrightarrow> lastIndex < e \<and> lastIndex \<le> length s"
  unfolding JSX_INTERPOLATION_def Seqs.simps by (rule exec_progress)

function parseText_loop :: "string \<Rightarrow> nat \<Rightarrow> int \<Rightarrow> string list \<Rightarrow> int \<times> string list" where
  "parseText_loop rawText rxLastIndex lastIndex parts =
     (case exec JSX_INTERPOLATION rawText rxLastIndex of
        (None, li) \<Rightarrow> (lastIndex, parts)
      | (Some m, li) \<Rightarrow>
          (let position = int (m_index m);
               beforeText = js_trim (js_slice rawText lastIndex position);
               parts1 = (if beforeText \<noteq> [] then parts @ [backtick beforeText] else parts);
               parts2 = parts1 @ [group1 m]
           in parseText_loop rawText li (position + int (length (m_text m))) parts2))"
  by pat_completeness auto
termination
proof (relation "measure (\<lambda>(rawText, rxLastIndex, lastIndex, parts). Suc (length rawText) - rxLastIndex)")
  show "wf (measure (\<lambda>(rawText, rxLastIndex, lastIndex, parts). Suc (length rawText) - rxLastIndex))"
    by simp
next
  fix rawText :: string and rxLastIndex :: nat and lastIndex :: int
    and parts :: "string list" and x1 x2 m xa xb xc xd
  assume "(x1, x2) = exec JSX_INTERPOLATION rawText rxLastIndex" "x1 = Some m"
  then have "exec JSX_INTERPOLATION rawText rxLastIndex = (Some m, x2)" by simp
  from JSX_INTERPOLATION_progress[OF this]
  have "rxLastIndex < x2" "rxLastIndex \<le> length rawText" by simp_all
  then show "((rawText, x2, xa + int (length (m_text m)), xd), rawText, rxLastIndex, lastIndex, parts)
        \<in> measure (\<lambda>(rawText, rxLastIndex, lastIndex, parts). Suc (length rawText) - rxLastIndex)"
    by simp
qed

text \<open>
  \<^verbatim>\<open>rawText.match(JSX_INTERPOLATION)\<close>, with the \<^verbatim>\<open>g\<close> flag, sets \<^verbatim>\<open>lastIndex\<close> to 0, collects
  every match and leaves \<^verbatim>\<open>lastIndex\<close> at 0; it is \<^verbatim>\<open>null\<close> when there is no match. So the loop
  starts at 0 whatever an earlier call has done, and it ends on a failed \<^verbatim>\<open>exec\<close>, which
  leaves 0 again: \<^verbatim>\<open>parseText\<close> is a function of its argument.
\<close>

definition parseText :: "string \<Rightarrow> string" where
  "parseText text =
     (let rawText = js_trim (collapse_ws text) in
      if rx_test JSX_INTERPOLATION rawText then
        if rx_test single_marker rawText then js_slice rawText 1 (- 1)
        else
          (let (lastIndex, parts) = parseText_loop rawText 0 0 [];
               remainingText = js_trim (js_slice_from rawText lastIndex);
               parts' = (if remainingText \<noteq> [] then parts @ [backtick remainingText] else parts)
           in js_join parts')
      else backtick rawText)"

subsection \<open>translate\<close>

definition isLowerCase :: "string \<Rightarrow> bool" where
  "isLowerCase str =
     (case str of
        [] \<Rightarrow> False
      | c # _ \<Rightarrow> (of_char CHR ''a'' :: nat) \<le> of_char c \<and> (of_char c :: nat) \<le> of_char CHR ''z'')"

text \<open>\<^verbatim>\<open>.filter((node) => node != null)\<close>\<close>

definition non_null :: "string option list \<Rightarrow> string list" where
  "non_null rs = List.map_filter (\<lambda>r. r) rs"

text \<open>
  The template literal of lines 36 to 38. An array in a template literal is written by
  \<^verbatim>\<open>Array.prototype.toString\<close>: its elements joined by commas, without brackets.
\<close>

definition createElement_text :: "string \<Rightarrow> obj \<Rightarrow> string list \<Rightarrow> string" where
  "createElement_text t ps children =
     ''MiniReact.createElement(''
       @ (if isLowerCase t then [dquote] @ t @ [dquote] else t)
       @ '','' @ stringify ps @ '','' @ js_join children @ '')''"

text \<open>
  \<^verbatim>\<open>translate(root)\<close> for a node: \<open>Inr None\<close> is \<^verbatim>\<open>null\<close>. The children are translated
  first, in order; \<^verbatim>\<open>isLowerCase(tagName)\<close> reads \<^verbatim>\<open>str[0]\<close>, which throws for the
  \<^verbatim>\<open>null\<close> tag name of the root. The two calls of \<^verbatim>\<open>console.log\<close> are left out.
\<close>

fun translate :: "node \<Rightarrow> js_error + string option"
  and translate_all :: "node list \<Rightarrow> js_error + string option list" where
  "translate (TextNode text) =
     (if js_trim text = [] then Inr None else Inr (Some (parseText text)))"
| "translate (HTMLElement tag ps kids) =
     (case translate_all kids of
        Inl e \<Rightarrow> Inl e
      | Inr rs \<Rightarrow>
          (case tag of
             None \<Rightarrow> Inl TypeError
           | Some t \<Rightarrow> Inr (Some (createElement_text t ps (non_null rs)))))"
| "translate_all [] = Inr []"
| "translate_all (k # ks) =
     (case translate k of
        Inl e \<Rightarrow> Inl e
      | Inr r \<Rightarrow> (case translate_all ks of Inl e \<Rightarrow> Inl e | Inr rs \<Rightarrow> Inr (r # rs)))"

subsection \<open>parseJSX\<close>

text \<open>
  \<^verbatim>\<open>/<([a-zA-Z][^\s/>]*)(?:\s[^>]*?)?>[\s\S]*?<\/\1>|<([a-zA-Z][^\s/>]*)(?:\s[^>]*?)?\/>/g\<close>
\<close>

definition tag_open :: "nat \<Rightarrow> regex" where
  "tag_open g =
     Seqs [Lit CHR ''<'',
           Group g (Seq (Cls [CRange CHR ''a'' CHR ''z'', CRange CHR ''A'' CHR ''Z''])
                        (Star (NCls [CSpace, CChar CHR ''/'', CChar CHR ''>'']))),
           Opt (Seq (Cls [CSpace]) (LazyStar (NCls [CChar CHR ''>''])))]"

definition JSX_STRING :: regex where
  "JSX_STRING =
     Alt (Seqs [tag_open 1, Lit CHR ''>'', LazyStar (Cls [CSpace, CNonSpace]),
                Lit CHR ''<'', Lit CHR ''/'', Backref 1, Lit CHR ''>''])
         (Seqs [tag_open 2, Lit CHR ''/'', Lit CHR ''>''])"

text \<open>
  \<^verbatim>\<open>str.replace(pattern, replacement)\<close> for two strings: the first occurrence of the
  pattern is replaced, and in the replacement \<^verbatim>\<open>$$\<close> stands for a dollar sign, \<^verbatim>\<open>$&\<close> for
  the pattern, \<^verbatim>\<open>$`\<close> for the text before the occurrence and \<^verbatim>\<open>$'\<close> for the text after it.
\<close>

fun expand_replacement :: "string \<Rightarrow> string \<Rightarrow> string \<Rightarrow> string \<Rightarrow> string" where
  "expand_replacement matched pre post [] = []"
| "expand_replacement matched pre post [c] = [c]"
| "expand_replacement matched pre post (c # d # r) =
     (if c = CHR ''$'' \<and> d = CHR ''$'' then CHR ''$'' # expand_replacement matched pre post r
      else if c = CHR ''$'' \<and> d = CHR ''&'' then matched @ expand_replacement matched pre post r
      else if c = CHR ''$'' \<and> d = CHR ''`'' then pre @ expand_replacement matched pre post r
      else if c = CHR ''$'' \<and> d = squote then post @ expand_replacement matched pre post r
      else c # expand_replacement matched pre post (d # r))"

definition js_replace :: "string \<Rightarrow> string \<Rightarrow> string \<Rightarrow> string" where
  "js_replace str pat replacement =
     (let i = js_indexOf str pat in
      if i = - 1 then str
      else
        let pre = take (nat i) str;
            post = drop (nat i + length pat) str
        in pre @ expand_replacement pat pre post replacement @ post)"

text \<open>
  \<^verbatim>\<open>translate(root.childNodes[0])\<close>: without a first child the argument is \<^verbatim>\<open>undefined\<close>
  and \<^verbatim>\<open>root.childNodes\<close> throws. A result \<^verbatim>\<open>null\<close> is written "null" by \<^verbatim>\<open>replace\<close>.
\<close>

definition translate_first :: "node \<Rightarrow> js_error + string" where
  "translate_first root =
     (case root of
        TextNode _ \<Rightarrow> Inl TypeError
      | HTMLElement _ _ [] \<Rightarrow> Inl TypeError
      | HTMLElement _ _ (k # _) \<Rightarrow>
          (case translate k of
             Inl e \<Rightarrow> Inl e
           | Inr None \<Rightarrow> Inr ''null''
           | Inr (Some t) \<Rightarrow> Inr t))"

text \<open>
  The two pattern objects with the \<^verbatim>\<open>g\<close> flag are created once, when their modules are
  loaded; their \<^verbatim>\<open>lastIndex\<close> properties are the state that a call of \<^verbatim>\<open>parseJSX\<close> finds and
  leaves.
\<close>

record globals =
  JSX_STRING_lastIndex :: nat
  kMarkupPattern_lastIndex :: nat

definition fresh :: globals where
  "fresh = \<lparr>JSX_STRING_lastIndex = 0, kMarkupPattern_lastIndex = 0\<rparr>"

text \<open>
  \<^verbatim>\<open>parseJSX(str)\<close>: the result is the string that is returned or the error that is thrown,
  with the state that is left. The loop replaces text in the string that it scans; no
  bound on its length is claimed here, so a run that never ends is \<open>None\<close>.
\<close>

partial_function (option) parseJSX :: "string \<Rightarrow> globals \<Rightarrow> ((js_error + string) \<times> globals) option" where
  "parseJSX str g =
     (case exec JSX_STRING str (JSX_STRING_lastIndex g) of
        (None, li) \<Rightarrow> Some (Inr str, g\<lparr>JSX_STRING_lastIndex := li\<rparr>)
      | (Some m, li) \<Rightarrow>
          (case parse (m_text m) (kMarkupPattern_lastIndex g) of
             None \<Rightarrow> None
           | Some (Inl e, k) \<Rightarrow>
               Some (Inl e, \<lparr>JSX_STRING_lastIndex = li, kMarkupPattern_lastIndex = k\<rparr>)
           | Some (Inr root, k) \<Rightarrow>
               (case translate_first root of
                  Inl e \<Rightarrow> Some (Inl e, \<lparr>JSX_STRING_lastIndex = li, kMarkupPattern_lastIndex = k\<rparr>)
                | Inr translated \<Rightarrow>
                    parseJSX (js_replace str (m_text m) translated)
                      \<lparr>JSX_STRING_lastIndex = li, kMarkupPattern_lastIndex = k\<rparr>)))"

declare parseJSX.simps [code]

section \<open>The tree builder\<close>

text \<open>
  Claim C1. The invariant of the tree builder: after a token has been processed without
  an error, the current parent is the element on top of the stack of open tags; after a
  close tag that matches, it is the element that is then on top.

  The source breaks it at the close tag. For the input \<^verbatim>\<open><div></div>\<close> the close tag
  matches and the stack is popped, which leaves the root (address 0) on top; yet
  \<^verbatim>\<open>currentParent\<close> is assigned \<^verbatim>\<open>stack.back\<close>, which is \<^verbatim>\<open>undefined\<close>.
\<close>

theorem close_tag_leaves_currentParent_undefined:
  "parse_loop ''<div></div>'' parse_init 0 =
     (Inr \<lparr>heap = [ElemCell None [] [1], ElemCell (Some ''div'') [] []],
            currentParent = None, stack = [0], lastTextPos = 11\<rparr>, 0)"
  by code_simp

text \<open>
  The next tag then finds no parent: an element that closes inside another one makes
  \<^verbatim>\<open>parse\<close> throw at the outer close tag.
\<close>

lemma nested_element_throws:
  "parse ''<a><b></b></a>'' 0 = Some (Inl TypeError, 14)"
  by code_simp

text \<open>
  The steps of the builder one by one, for every state and every tag: the text step and
  the step of an open or self-closing tag keep the current parent on top of the stack;
  the step of a close tag that is accepted pops the stack and always leaves the current
  parent \<^verbatim>\<open>undefined\<close>.
\<close>

definition top_of_stack :: "parse_state \<Rightarrow> nat option" where
  "top_of_stack st = (if stack st = [] then None else Some (last (stack st)))"

lemma accepted_close_tag_unsets_currentParent:
  assumes "closed (handleJSXTag (m_text m))" "parse_tag m st = Inr st'"
  shows "currentParent st' = None \<and> stack st' = butlast (stack st)"
  using assms by (auto simp: parse_tag_def Let_def split: sum.splits if_splits)

lemma open_tag_keeps_invariant:
  assumes "\<not> closed (handleJSXTag (m_text m))" "parse_tag m st = Inr st'"
    "currentParent st = top_of_stack st"
  shows "currentParent st' = top_of_stack st'"
  using assms by (auto simp: parse_tag_def Let_def top_of_stack_def split: sum.splits if_splits)

lemma text_keeps_invariant:
  assumes "parse_text data m li st = Inr st'" "currentParent st = top_of_stack st"
  shows "currentParent st' = top_of_stack st'"
  using assms by (auto simp: parse_text_def top_of_stack_def split: sum.splits if_splits)

text \<open>
  Claim C2. A close tag raises the fatal parse error exactly when its name differs from
  the tag name of the current parent, and then no tree is returned; the input
  \<^verbatim>\<open><div><span></div>\<close> raises it.

  The source tests \<^verbatim>\<open>match[0].includes(currentParent.tagName)\<close>: the close tag is
  accepted when the parent's name occurs anywhere in it. For \<^verbatim>\<open><di></div>\<close> the names
  \<^verbatim>\<open>div\<close> and \<^verbatim>\<open>di\<close> differ and no error is raised: the tree is returned.
\<close>

theorem close_tag_accepted_by_substring:
  "tagName (handleJSXTag ''</div>'') = ''div'' \<and>
   parse ''<di></div>'' 0 = Some (Inr (HTMLElement None [] [HTMLElement (Some ''di'') [] []]), 0)"
  by code_simp

text \<open>The input of the claim does raise the error, and no tree is returned.\<close>

lemma unbalanced_input_throws:
  "parse ''<div><span></div>'' 0 = Some (Inl UnbalancedTagError, 17)"
  by code_simp

section \<open>State across calls\<close>

text \<open>
  Claim C10. The transform is deterministic: two runs on the same source text give the
  same result or fail in the same way, also when other runs came before; no state is
  shared between calls.

  The two patterns with the \<^verbatim>\<open>g\<close> flag are module-level objects, and an error that leaves
  \<^verbatim>\<open>parseJSX\<close> leaves their \<^verbatim>\<open>lastIndex\<close> where the scan stood. The first run on
  \<^verbatim>\<open><div><span></div>\<close> throws the error for the unbalanced tag; the second run, on the
  same text, starts both scans at index 17, finds no markup, and returns the text
  unchanged.
\<close>

theorem second_run_differs_after_error:
  "parseJSX ''<div><span></div>'' fresh =
     Some (Inl UnbalancedTagError, \<lparr>JSX_STRING_lastIndex = 17, kMarkupPattern_lastIndex = 17\<rparr>) \<and>
   parseJSX ''<div><span></div>'' \<lparr>JSX_STRING_lastIndex = 17, kMarkupPattern_lastIndex = 17\<rparr> =
     Some (Inr ''<div><span></div>'', \<lparr>JSX_STRING_lastIndex = 0, kMarkupPattern_lastIndex = 17\<rparr>)"
  by code_simp

section \<open>The translator: elements and their children\<close>

lemma js_trim_empty_iff: "js_trim s = [] \<longleftrightarrow> list_all is_ws s"
proof
  assume "js_trim s = []"
  then have "dropWhile is_ws (rev (dropWhile is_ws s)) = []" by (simp add: js_trim_def)
  then have "\<forall>c \<in> set (dropWhile is_ws s). is_ws c" by (simp add: dropWhile_eq_Nil_conv)
  then have "dropWhile is_ws s = []"
    by (metis dropWhile_eq_Nil_conv hd_dropWhile list.set_sel(1))
  then show "list_all is_ws s" by (simp add: dropWhile_eq_Nil_conv list_all_iff)
next
  assume "list_all is_ws s"
  then have "dropWhile is_ws s = []" by (simp add: dropWhile_eq_Nil_conv list_all_iff)
  then have "js_trim s = rev (dropWhile is_ws (rev []))" by (simp only: js_trim_def)
  then show "js_trim s = []" by simp
qed

lemma translate_all_append:
  "translate_all (xs @ ys) =
     (case translate_all xs of
        Inl e \<Rightarrow> Inl e
      | Inr rs \<Rightarrow> (case translate_all ys of Inl e \<Rightarrow> Inl e | Inr rs' \<Rightarrow> Inr (rs @ rs')))"
  by (induction xs) (auto split: sum.splits)

lemma non_null_append: "non_null (xs @ ys) = non_null xs @ non_null ys"
  by (induction xs) (auto simp: non_null_def List.map_filter_def)

lemma non_null_map: "non_null (map f xs) = List.map_filter f xs"
  by (induction xs) (auto simp: non_null_def List.map_filter_def)

lemma non_null_None: "non_null (None # rs) = non_null rs"
  by (simp add: non_null_def List.map_filter_def)

lemma translate_all_results:
  "translate_all kids = Inr rs \<Longrightarrow> rs = map (\<lambda>k. projr (translate k)) kids"
  by (induction kids arbitrary: rs) (auto split: sum.splits)

text \<open>
  Claim C7. A text node whose content is white space only translates to no value, and
  it contributes nothing to the child list of its parent: the parent translates as it
  does without the node.
\<close>

theorem whitespace_text_contributes_nothing:
  assumes "list_all is_ws text"
  shows "translate (TextNode text) = Inr None \<and>
         translate (HTMLElement tag ps (ks1 @ TextNode text # ks2)) =
         translate (HTMLElement tag ps (ks1 @ ks2))"
proof -
  from assms have t: "translate (TextNode text) = Inr None"
    by (simp add: js_trim_empty_iff)
  have "translate (HTMLElement tag ps (ks1 @ TextNode text # ks2)) =
        translate (HTMLElement tag ps (ks1 @ ks2))"
    using t by (simp add: translate_all_append non_null_append non_null_None
        split: sum.splits option.splits)
  with t show ?thesis by simp
qed

theorem whitespace_text_contributes_nothing_witness:
  "list_all is_ws [CHR '' '', CHR 0x0A, CHR 0x09] \<and>
   translate (TextNode [CHR '' '', CHR 0x0A, CHR 0x09]) = Inr None \<and>
   translate (HTMLElement (Some ''p'') []
       ([TextNode ''a''] @ TextNode [CHR '' '', CHR 0x0A, CHR 0x09] # [TextNode ''b''])) =
   translate (HTMLElement (Some ''p'') [] ([TextNode ''a''] @ [TextNode ''b'']))"
  using whitespace_text_contributes_nothing
    [of "[CHR '' '', CHR 0x0A, CHR 0x09]" "Some ''p''" "[]" "[TextNode ''a'']" "[TextNode ''b'']"]
  by (simp add: is_ws_def)

text \<open>
  Claim C3, as amended. For \<^verbatim>\<open><Foo bar="1" />\<close> the transform yields
  \<^verbatim>\<open>MiniReact.createElement(Foo,{bar:"1"},)\<close>. Every translated element has the form
  \<^verbatim>\<open>MiniReact.createElement(tagExpr,attrsExpr,children)\<close>, where \<^verbatim>\<open>children\<close> is the list of the
  non-null translations of the children joined by commas, without brackets: it is empty
  for an element without children. An error of a child is the error of the element.

  The claim as stated (the callee \<^verbatim>\<open>createElement\<close>, the children in square brackets)
  fails on the input of the claim itself.
\<close>

theorem element_expression_form:
  \<open>parseJSX ''<Foo bar="1" />'' fresh = Some (Inr ''MiniReact.createElement(Foo,{bar:"1"},)'', fresh) \<and>
   translate (HTMLElement (Some t) ps []) =
     Inr (Some (''MiniReact.createElement('' @ (if isLowerCase t then ''"'' @ t @ ''"'' else t)
                 @ '','' @ stringify ps @ '','' @ '')'')) \<and>
   (case translate_all kids of
      Inl e \<Rightarrow> translate (HTMLElement (Some t) ps kids) = Inl e
    | Inr rs \<Rightarrow>
        translate (HTMLElement (Some t) ps kids) =
          Inr (Some (''MiniReact.createElement('' @ (if isLowerCase t then ''"'' @ t @ ''"'' else t)
                      @ '','' @ stringify ps @ '','' @ js_join (non_null rs) @ '')'')))\<close>
proof -
  have a: \<open>parseJSX ''<Foo bar="1" />'' fresh = Some (Inr ''MiniReact.createElement(Foo,{bar:"1"},)'', fresh)\<close>
    by code_simp
  have b: \<open>translate (HTMLElement (Some t) ps []) =
     Inr (Some (''MiniReact.createElement('' @ (if isLowerCase t then ''"'' @ t @ ''"'' else t)
                 @ '','' @ stringify ps @ '','' @ '')''))\<close>
    by (simp add: createElement_text_def non_null_def List.map_filter_def dquote_def)
  have c: \<open>(case translate_all kids of
      Inl e \<Rightarrow> translate (HTMLElement (Some t) ps kids) = Inl e
    | Inr rs \<Rightarrow>
        translate (HTMLElement (Some t) ps kids) =
          Inr (Some (''MiniReact.createElement('' @ (if isLowerCase t then ''"'' @ t @ ''"'' else t)
                      @ '','' @ stringify ps @ '','' @ js_join (non_null rs) @ '')'')))\<close>
    by (simp add: createElement_text_def dquote_def split: sum.splits)
  from a b c show ?thesis by blast
qed

theorem element_expression_counterexample:
  \<open>map_option fst (parseJSX ''<Foo bar="1" />'' fresh) \<noteq> Some (Inr ''createElement(Foo,{bar:"1"},[])'')\<close>
  by code_simp

section \<open>The attribute scanner\<close>

text \<open>
  A special character is one that the scanner does not take into the key: \<^verbatim>\<open>=\<close> starts the
  value, a quote or \<^verbatim>\<open>{\<close> goes to the value and changes the mode. A key text is any text
  without special characters; it may hold spaces, and so names without \<^verbatim>\<open>=\<close>.
\<close>

definition special_char :: "char \<Rightarrow> bool" where
  "special_char c = (c = CHR ''='' \<or> c = dquote \<or> c = squote \<or> c = CHR ''{'')"

definition key_text :: "string \<Rightarrow> bool" where
  "key_text K = list_all (\<lambda>c. \<not> special_char c) K"

text \<open>
  The modes of the scanner inside a value: outside quotes and braces, inside quotes that
  the given character closes, inside braces. \<open>value_mode m V\<close> follows the modes through
  the text \<open>V\<close>; it is \<open>None\<close> when \<open>V\<close> has a space or \<^verbatim>\<open>=\<close> outside quotes and braces, where
  the scanner would end the pair or drop the character. A value that the scanner reads
  whole is a text, after spaces if any, that starts and ends outside quotes and braces
  and is not blank.
\<close>

datatype vmode = VDefault | VQuote char | VBrace

fun value_mode :: "vmode \<Rightarrow> string \<Rightarrow> vmode option" where
  "value_mode m [] = Some m"
| "value_mode VDefault (c # cs) =
     (if c = CHR ''='' \<or> c = CHR '' '' then None
      else if c = dquote \<or> c = squote then value_mode (VQuote c) cs
      else if c = CHR ''{'' then value_mode VBrace cs
      else value_mode VDefault cs)"
| "value_mode (VQuote q) (c # cs) = value_mode (if c = q then VDefault else VQuote q) cs"
| "value_mode VBrace (c # cs) = value_mode (if c = CHR ''}'' then VDefault else VBrace) cs"

definition whole_value :: "string \<Rightarrow> bool" where
  "whole_value V =
     (value_mode VDefault (dropWhile (\<lambda>c. c = CHR '' '') V) = Some VDefault \<and> js_trim V \<noteq> [])"

fun mode_ok :: "vmode \<Rightarrow> pp_state \<Rightarrow> bool" where
  "mode_ok VDefault s = (\<not> inQuotes s \<and> \<not> inBraces s)"
| "mode_ok (VQuote q) s = (inQuotes s \<and> \<not> inBraces s \<and> quoteType s = [q])"
| "mode_ok VBrace s = (\<not> inQuotes s \<and> inBraces s)"

text \<open>The state of the scanner between two pairs.\<close>

definition between :: "pp_state \<Rightarrow> bool" where
  "between st = (\<not> inQuotes st \<and> \<not> inBraces st \<and> \<not> isParsingValue st \<and>
                 currentKey st = [] \<and> currentValue st = [])"

text \<open>
  A raw attribute string made of pairs \<open>K=V\<close>, each followed by a space, and a tail; and
  what \<^verbatim>\<open>parseProps\<close> is to store for the pairs.
\<close>

definition attr_text :: "(string \<times> string) list \<Rightarrow> string \<Rightarrow> string" where
  "attr_text pairs T = concat (map (\<lambda>(K, V). K @ ''='' @ V @ '' '') pairs) @ T"

definition store_all :: "(string \<times> string) list \<Rightarrow> obj \<Rightarrow> obj" where
  "store_all pairs ps = foldl (\<lambda>ps (K, V). obj_set (js_trim K) (stored_value V) ps) ps pairs"

definition pairs_ok :: "(string \<times> string) list \<Rightarrow> bool" where
  "pairs_ok pairs = list_all (\<lambda>(K, V). key_text K \<and> whole_value V) pairs"

lemma pp_scan_Nil [simp]: "pp_scan st [] = st"
  by (simp add: pp_scan_def)

lemma pp_scan_Cons [simp]: "pp_scan st (c # cs) = pp_scan (pp_step st c) cs"
  by (simp add: pp_scan_def)

lemma pp_scan_append: "pp_scan st (xs @ ys) = pp_scan (pp_scan st xs) ys"
  by (simp add: pp_scan_def)

lemma js_trim_Nil [simp]: "js_trim [] = []"
  by (simp add: js_trim_def)

lemma js_trim_id: "s \<noteq> [] \<Longrightarrow> \<not> is_ws (hd s) \<Longrightarrow> \<not> is_ws (last s) \<Longrightarrow> js_trim s = s"
proof -
  assume a: "s \<noteq> []" "\<not> is_ws (hd s)" "\<not> is_ws (last s)"
  then have 1: "dropWhile is_ws s = s" by (cases s) simp_all
  from a have "rev s \<noteq> []" "\<not> is_ws (hd (rev s))" by (simp_all add: hd_rev)
  then have 2: "dropWhile is_ws (rev s) = rev s" by (cases "rev s") simp_all
  show ?thesis by (simp add: js_trim_def 1 2)
qed

lemma js_slice_inner: "js_slice (c # e @ [d]) 1 (- 1) = e"
  by (simp add: js_slice_def Let_def)

lemma scan_key:
  "\<not> inQuotes st \<Longrightarrow> \<not> inBraces st \<Longrightarrow> \<not> isParsingValue st \<Longrightarrow> key_text K \<Longrightarrow>
   pp_scan st K = st\<lparr>currentKey := currentKey st @ K\<rparr>"
proof (induction K arbitrary: st)
  case Nil
  then show ?case by simp
next
  case (Cons c K)
  from Cons.prems have step: "pp_step st c = st\<lparr>currentKey := currentKey st @ [c]\<rparr>"
    by (simp add: pp_step_def special_char_def key_text_def)
  from Cons.prems have "pp_scan (st\<lparr>currentKey := currentKey st @ [c]\<rparr>) K =
        st\<lparr>currentKey := currentKey st @ [c], currentKey := (currentKey st @ [c]) @ K\<rparr>"
    using Cons.IH[of "st\<lparr>currentKey := currentKey st @ [c]\<rparr>"] by (simp add: key_text_def)
  with step show ?case by simp
qed

lemma scan_spaces:
  "\<not> inQuotes s \<Longrightarrow> \<not> inBraces s \<Longrightarrow> isParsingValue s \<Longrightarrow> currentValue s = pre \<Longrightarrow>
   list_all (\<lambda>c. c = CHR '' '') (pre @ sp) \<Longrightarrow>
   pp_scan s sp = s\<lparr>currentValue := pre @ sp\<rparr>"
proof (induction sp arbitrary: s pre)
  case Nil
  then show ?case by simp
next
  case (Cons c sp)
  from Cons.prems(5) have "list_all is_ws pre" by (auto simp: list_all_iff is_ws_def)
  then have blank: "js_trim pre = []" by (simp add: js_trim_empty_iff)
  from Cons.prems have c: "c = CHR '' ''" by simp
  have step: "pp_step s c = s\<lparr>currentValue := pre @ [c]\<rparr>"
    using Cons.prems(1-4) blank c by (simp add: pp_step_def dquote_def squote_def)
  have "pp_scan (s\<lparr>currentValue := pre @ [c]\<rparr>) sp =
        s\<lparr>currentValue := pre @ [c], currentValue := (pre @ [c]) @ sp\<rparr>"
    using Cons.prems by (intro Cons.IH) simp_all
  with step show ?case by simp
qed

text \<open>The scanner takes the whole of a text into the value as long as the modes allow it.\<close>

lemma scan_value_text:
  "mode_ok m s \<Longrightarrow> isParsingValue s \<Longrightarrow> value_mode m V = Some m' \<Longrightarrow>
   mode_ok m' (pp_scan s V) \<and> currentValue (pp_scan s V) = currentValue s @ V \<and>
   attrs (pp_scan s V) = attrs s \<and> currentKey (pp_scan s V) = currentKey s \<and>
   isParsingValue (pp_scan s V)"
proof (induction V arbitrary: m s)
  case Nil
  then show ?case by simp
next
  case (Cons c V)
  let ?s1 = "pp_step s c"
  obtain m1 where m1: "value_mode m (c # V) = value_mode m1 V" and ok1: "mode_ok m1 ?s1"
    and f1: "currentValue ?s1 = currentValue s @ [c]" "attrs ?s1 = attrs s"
      "currentKey ?s1 = currentKey s" "isParsingValue ?s1"
  proof (cases m)
    case VDefault
    with Cons.prems(3) have c: "c \<noteq> CHR ''=''" "c \<noteq> CHR '' ''" by (auto split: if_splits)
    show ?thesis
    proof (cases "c = dquote \<or> c = squote")
      case True
      with VDefault c Cons.prems(1,2) show ?thesis
        by (intro that[of "VQuote c"]) (auto simp: pp_step_def)
    next
      case False
      show ?thesis
      proof (cases "c = CHR ''{''")
        case True
        with VDefault c Cons.prems(1,2) \<open>\<not> (c = dquote \<or> c = squote)\<close> show ?thesis
          by (intro that[of VBrace]) (auto simp: pp_step_def)
      next
        case False
        with VDefault c Cons.prems(1,2) \<open>\<not> (c = dquote \<or> c = squote)\<close> show ?thesis
          by (intro that[of VDefault]) (auto simp: pp_step_def)
      qed
    qed
  next
    case (VQuote q)
    with Cons.prems(1,2) show ?thesis
      by (intro that[of "if c = q then VDefault else VQuote q"]) (auto simp: pp_step_def)
  next
    case VBrace
    with Cons.prems(1,2) show ?thesis
      by (intro that[of "if c = CHR ''}'' then VDefault else VBrace"]) (auto simp: pp_step_def)
  qed
  from Cons.prems(3) m1 have "value_mode m1 V = Some m'" by simp
  from Cons.IH[OF ok1 f1(4) this] f1 show ?case by simp
qed

lemma whole_value_scanned:
  assumes "\<not> inQuotes s" "\<not> inBraces s" "isParsingValue s" "currentValue s = []" "whole_value V"
  shows "\<not> inQuotes (pp_scan s V) \<and> \<not> inBraces (pp_scan s V) \<and> isParsingValue (pp_scan s V) \<and>
         currentValue (pp_scan s V) = V \<and> attrs (pp_scan s V) = attrs s \<and>
         currentKey (pp_scan s V) = currentKey s"
proof -
  let ?sp = "takeWhile (\<lambda>c. c = CHR '' '') V"
  let ?v = "dropWhile (\<lambda>c. c = CHR '' '') V"
  have V: "V = ?sp @ ?v" by simp
  have sp: "list_all (\<lambda>c. c = CHR '' '') ([] @ ?sp)"
    by (auto simp: list_all_iff dest: set_takeWhileD)
  let ?s1 = "s\<lparr>currentValue := [] @ ?sp\<rparr>"
  have 1: "pp_scan s ?sp = ?s1" by (rule scan_spaces[OF assms(1-4) sp])
  have ok: "mode_ok VDefault ?s1" "isParsingValue ?s1" using assms by simp_all
  from assms(5) have "value_mode VDefault ?v = Some VDefault" by (simp add: whole_value_def)
  from scan_value_text[OF ok this]
  have 2: "mode_ok VDefault (pp_scan ?s1 ?v)" "currentValue (pp_scan ?s1 ?v) = ?sp @ ?v"
    "attrs (pp_scan ?s1 ?v) = attrs s" "currentKey (pp_scan ?s1 ?v) = currentKey s"
    "isParsingValue (pp_scan ?s1 ?v)"
    by simp_all
  have "pp_scan s V = pp_scan ?s1 ?v"
    using pp_scan_append[of s ?sp ?v] 1 by simp
  with 2 show ?thesis by simp
qed

text \<open>A key text, the equals sign and a value, read between two pairs.\<close>

lemma pair_scanned:
  assumes "between st" "key_text K" "whole_value V"
  shows "\<not> inQuotes (pp_scan st (K @ ''='' @ V)) \<and> \<not> inBraces (pp_scan st (K @ ''='' @ V)) \<and>
         isParsingValue (pp_scan st (K @ ''='' @ V)) \<and>
         currentValue (pp_scan st (K @ ''='' @ V)) = V \<and>
         attrs (pp_scan st (K @ ''='' @ V)) = attrs st \<and>
         currentKey (pp_scan st (K @ ''='' @ V)) = K"
proof -
  from assms(1) have st: "\<not> inQuotes st" "\<not> inBraces st" "\<not> isParsingValue st"
    "currentKey st = []" "currentValue st = []"
    by (simp_all add: between_def)
  let ?s1 = "st\<lparr>currentKey := currentKey st @ K\<rparr>"
  let ?s2 = "?s1\<lparr>isParsingValue := True\<rparr>"
  have 1: "pp_scan st K = ?s1" by (rule scan_key[OF st(1-3) assms(2)])
  have 2: "pp_step ?s1 CHR ''='' = ?s2" using st by (simp add: pp_step_def)
  have "pp_scan st (K @ ''='' @ V) = pp_scan (pp_step (pp_scan st K) CHR ''='') V"
    by (simp add: pp_scan_append)
  then have 3: "pp_scan st (K @ ''='' @ V) = pp_scan ?s2 V" by (simp only: 1 2)
  have "\<not> inQuotes ?s2" "\<not> inBraces ?s2" "isParsingValue ?s2" "currentValue ?s2 = []"
    using st by simp_all
  from whole_value_scanned[OF this assms(3)] st(4) show ?thesis
    unfolding 3 by simp
qed

lemma pair_then_space:
  assumes "between st" "key_text K" "whole_value V"
  shows "between (pp_scan st (K @ ''='' @ V @ '' '')) \<and>
         attrs (pp_scan st (K @ ''='' @ V @ '' '')) =
           obj_set (js_trim K) (stored_value V) (attrs st)"
proof -
  let ?s = "pp_scan st (K @ ''='' @ V)"
  have "pp_scan st (K @ ''='' @ V @ '' '') = pp_step ?s CHR '' ''"
    using pp_scan_append[of st "K @ ''='' @ V" "'' ''"] by simp
  moreover from assms(3) have "js_trim V \<noteq> []" by (simp add: whole_value_def)
  ultimately show ?thesis
    using pair_scanned[OF assms]
    by (simp add: pp_step_def pp_store_def between_def dquote_def squote_def)
qed

lemma pair_then_end:
  assumes "between st" "key_text K" "whole_value V"
  shows "pp_finish (pp_scan st (K @ ''='' @ V)) =
           (if js_trim K = [] then attrs st
            else obj_set (js_trim K) (stored_value V) (attrs st))"
proof -
  from assms(3) have "js_trim V \<noteq> []" by (simp add: whole_value_def)
  then show ?thesis
    using pair_scanned[OF assms] by (simp add: pp_finish_def pp_store_def)
qed

lemma pairs_scanned:
  "between st \<Longrightarrow> pairs_ok pairs \<Longrightarrow>
   between (pp_scan st (attr_text pairs [])) \<and>
   attrs (pp_scan st (attr_text pairs [])) = store_all pairs (attrs st)"
proof (induction pairs arbitrary: st)
  case Nil
  then show ?case by (simp add: attr_text_def store_all_def)
next
  case (Cons p pairs)
  obtain K V where p: "p = (K, V)" by (cases p)
  from Cons.prems p have ok: "key_text K" "whole_value V" "pairs_ok pairs"
    by (simp_all add: pairs_ok_def)
  let ?s1 = "pp_scan st (K @ ''='' @ V @ '' '')"
  from pair_then_space[OF Cons.prems(1) ok(1,2)]
  have 1: "between ?s1" "attrs ?s1 = obj_set (js_trim K) (stored_value V) (attrs st)"
    by simp_all
  have "attr_text (p # pairs) [] = (K @ ''='' @ V @ '' '') @ attr_text pairs []"
    by (simp add: attr_text_def p)
  then have "pp_scan st (attr_text (p # pairs) []) = pp_scan ?s1 (attr_text pairs [])"
    by (simp only: pp_scan_append)
  with Cons.IH[OF 1(1) ok(3)] 1(2) show ?case
    by (simp add: store_all_def p)
qed

lemma between_pp_init: "between pp_init" "attrs pp_init = []"
  by (simp_all add: between_def pp_init_def)

lemma attr_text_split: "attr_text pairs T = attr_text pairs [] @ T"
  by (simp add: attr_text_def)

text \<open>The two ends of a raw attribute string: a tail without \<^verbatim>\<open>=\<close>, or a last pair.\<close>

lemma parseProps_pairs_tail:
  assumes "pairs_ok pairs" "key_text T"
  shows "parseProps (attr_text pairs T) = store_all pairs []"
proof -
  let ?s = "pp_scan pp_init (attr_text pairs [])"
  from pairs_scanned[OF between_pp_init(1) assms(1)]
  have s: "between ?s" "attrs ?s = store_all pairs []"
    by (simp_all add: between_pp_init)
  then have "pp_scan ?s T = ?s\<lparr>currentKey := currentKey ?s @ T\<rparr>"
    by (intro scan_key[OF _ _ _ assms(2)]) (simp_all add: between_def)
  then have "pp_finish (pp_scan ?s T) = attrs ?s"
    using s(1) by (simp add: pp_finish_def between_def)
  then show ?thesis
    by (simp add: parseProps_def attr_text_split[of pairs T] pp_scan_append s(2))
qed

lemma parseProps_pairs_last:
  assumes "pairs_ok pairs" "key_text K" "whole_value V"
  shows "parseProps (attr_text pairs (K @ ''='' @ V)) =
           (if js_trim K = [] then store_all pairs []
            else obj_set (js_trim K) (stored_value V) (store_all pairs []))"
proof -
  let ?s = "pp_scan pp_init (attr_text pairs [])"
  from pairs_scanned[OF between_pp_init(1) assms(1)]
  have s: "between ?s" "attrs ?s = store_all pairs []"
    by (simp_all add: between_pp_init)
  have "parseProps (attr_text pairs (K @ ''='' @ V)) = pp_finish (pp_scan ?s (K @ ''='' @ V))"
    unfolding parseProps_def attr_text_split[of pairs "K @ ''='' @ V"] pp_scan_append ..
  with pair_then_end[OF s(1) assms(2,3)] s(2) show ?thesis
    by simp
qed


text \<open>
  Claim C8, as amended. Take a raw attribute string that consists of pairs \<^verbatim>\<open>K=V\<close>, each
  followed by one space character, and then either a tail \<open>T\<close> or a last pair \<^verbatim>\<open>K=V\<close> that
  ends the string, where every \<open>K\<close> and the tail \<open>T\<close> are key texts (no \<^verbatim>\<open>=\<close>, quote or \<^verbatim>\<open>{\<close>;
  spaces are allowed, so a key text may hold names that have no \<^verbatim>\<open>=\<close>) and every \<open>V\<close> is a
  value that the scanner reads whole. Then every pair is stored, by the assignment
  \<^verbatim>\<open>attrs[key] = value\<close> in the order of the string, under the key \<^verbatim>\<open>K.trim()\<close>: a name
  without \<^verbatim>\<open>=\<close> that stands before a pair is not dropped, it becomes with the separating
  space the start of that pair's key. A tail \<open>T\<close>, that is, names without \<^verbatim>\<open>=\<close> at the end of
  the string, is dropped. A last pair whose key text is blank is dropped as well.

  The claim as stated fails: \<^verbatim>\<open>disabled id="x"\<close> stores the single key \<^verbatim>\<open>disabled id\<close> and
  no key \<^verbatim>\<open>id\<close>, and in \<^verbatim>\<open>id="x" disabled\<close> the final name is dropped.
\<close>

theorem valueless_attribute_merged_or_dropped:
  assumes "pairs_ok pairs" and "key_text T" and "key_text K" and "whole_value V"
  shows "parseProps (attr_text pairs T) = store_all pairs [] \<and>
         parseProps (attr_text pairs (K @ ''='' @ V)) =
           (if js_trim K = [] then store_all pairs []
            else obj_set (js_trim K) (stored_value V) (store_all pairs []))"
  using parseProps_pairs_tail[OF assms(1,2)] parseProps_pairs_last[OF assms(1,3,4)]
  by (rule conjI)

theorem valueless_attribute_merged_or_dropped_witness:
  \<open>parseProps ''class="c" disabled id="x" hidden'' =
     [(''class'', ''"c"''), (''disabled id'', ''"x"'')] \<and>
   parseProps ''class="c" disabled id="x" checked  n = 2'' =
     [(''class'', ''"c"''), (''disabled id'', ''"x"''), (''checked  n'', ''2'')]\<close>
proof -
  have h: \<open>pairs_ok [(''class'', ''"c"''), (''disabled id'', ''"x"'')]\<close>
    "key_text ''hidden''" "key_text ''checked  n ''" "whole_value '' 2''"
    by code_simp+
  have e: \<open>attr_text [(''class'', ''"c"''), (''disabled id'', ''"x"'')] ''hidden'' =
            ''class="c" disabled id="x" hidden''\<close>
    \<open>attr_text [(''class'', ''"c"''), (''disabled id'', ''"x"'')] (''checked  n '' @ ''='' @ '' 2'') =
            ''class="c" disabled id="x" checked  n = 2''\<close>
    by code_simp+
  have r: \<open>store_all [(''class'', ''"c"''), (''disabled id'', ''"x"'')] [] =
            [(''class'', ''"c"''), (''disabled id'', ''"x"'')]\<close>
    \<open>(if js_trim ''checked  n '' = []
       then [(''class'', ''"c"''), (''disabled id'', ''"x"'')]
       else obj_set (js_trim ''checked  n '') (stored_value '' 2'')
              [(''class'', ''"c"''), (''disabled id'', ''"x"'')]) =
            [(''class'', ''"c"''), (''disabled id'', ''"x"''), (''checked  n'', ''2'')]\<close>
    by code_simp+
  from valueless_attribute_merged_or_dropped[OF h] show ?thesis
    unfolding e r .
qed

theorem valueless_attribute_counterexample:
  \<open>parseProps ''disabled id="x"'' = [(''disabled id'', ''"x"'')] \<and>
   map_of (parseProps ''disabled id="x"'') ''id'' = None \<and>
   parseProps ''id="x" disabled'' = [(''id'', ''"x"'')]\<close>
  by code_simp

text \<open>
  Outside the strings of the amended claim: a name that is followed, after a space, by a
  quote or an opening brace instead of \<^verbatim>\<open>=\<close>. The quoted or braced text goes to the value,
  and the name is stored with it.
\<close>

lemma name_before_quote_or_brace:
  \<open>parseProps ''disabled "x"'' = [(''disabled'', ''"x"'')] \<and>
   parseProps ''disabled {...props}'' = [(''disabled'', ''...props'')]\<close>
  by code_simp

subsection \<open>Brace-wrapped and quoted values\<close>

text \<open>
  The two kinds of value of the policy: \<^verbatim>\<open>{e}\<close>, and \<open>w\<close> between two quotes \<open>q\<close>; the text of
  the value in the raw string, and the text to be stored for it. The scanner reads \<^verbatim>\<open>{e}\<close>
  whole when \<^verbatim>\<open>e}\<close>, read from inside braces, has no space or \<^verbatim>\<open>=\<close> outside quotes and braces
  and ends outside them; the scanner does not count braces, the first \<^verbatim>\<open>}\<close> ends the
  braces.
\<close>

datatype attr_val = Braced string | Quoted char string

fun val_text :: "attr_val \<Rightarrow> string" where
  "val_text (Braced e) = ''{'' @ e @ ''}''"
| "val_text (Quoted q w) = q # w @ [q]"

fun val_stored :: "attr_val \<Rightarrow> string" where
  "val_stored (Braced e) = js_trim e"
| "val_stored (Quoted q w) = q # w @ [q]"

fun val_ok :: "attr_val \<Rightarrow> bool" where
  "val_ok (Braced e) = (value_mode VBrace (e @ ''}'') = Some VDefault)"
| "val_ok (Quoted q w) = ((q = dquote \<or> q = squote) \<and> list_all (\<lambda>c. c \<noteq> q) w)"

definition val_pairs_ok :: "(string \<times> attr_val) list \<Rightarrow> bool" where
  "val_pairs_ok pairs = list_all (\<lambda>(K, v). key_text K \<and> val_ok v) pairs"

definition val_attr_text :: "(string \<times> attr_val) list \<Rightarrow> string \<Rightarrow> string" where
  "val_attr_text pairs T = concat (map (\<lambda>(K, v). K @ ''='' @ val_text v @ '' '') pairs) @ T"

definition val_store :: "(string \<times> attr_val) list \<Rightarrow> obj \<Rightarrow> obj" where
  "val_store pairs ps = foldl (\<lambda>ps (K, v). obj_set (js_trim K) (val_stored v) ps) ps pairs"

lemma brace_free_ok: "CHR ''}'' \<notin> set e \<Longrightarrow> val_ok (Braced e)"
  by (induction e) auto

lemma quote_closes:
  "list_all (\<lambda>c. c \<noteq> q) w \<Longrightarrow> value_mode (VQuote q) (w @ [q]) = Some VDefault"
  by (induction w) simp_all

lemma val_whole: "val_ok v \<Longrightarrow> whole_value (val_text v)"
proof (cases v)
  case (Braced e)
  assume "val_ok v"
  with Braced have "value_mode VDefault (CHR ''{'' # e @ ''}'') = Some VDefault"
    by (simp add: dquote_def squote_def)
  moreover have "js_trim (CHR ''{'' # e @ ''}'') = CHR ''{'' # e @ ''}''"
    by (intro js_trim_id) (simp_all add: is_ws_def)
  ultimately show ?thesis using Braced by (simp add: whole_value_def)
next
  case (Quoted q w)
  assume "val_ok v"
  with Quoted have q: "q = dquote \<or> q = squote" "list_all (\<lambda>c. c \<noteq> q) w" by simp_all
  from q(1) have sp: "q \<noteq> CHR '' ''" "q \<noteq> CHR ''=''" "\<not> is_ws q"
    by (auto simp: dquote_def squote_def is_ws_def)
  have "value_mode VDefault (q # w @ [q]) = Some VDefault"
    using q sp quote_closes[OF q(2)] by auto
  moreover have "js_trim (q # w @ [q]) = q # w @ [q]"
    using sp by (intro js_trim_id) simp_all
  ultimately show ?thesis using Quoted sp by (simp add: whole_value_def)
qed

lemma val_stored_value: "val_ok v \<Longrightarrow> stored_value (val_text v) = val_stored v"
proof (cases v)
  case (Braced e)
  have "js_trim (CHR ''{'' # e @ ''}'') = CHR ''{'' # e @ ''}''"
    by (intro js_trim_id) (simp_all add: is_ws_def)
  moreover have "js_slice (CHR ''{'' # e @ ''}'') 1 (- 1) = e"
    using js_slice_inner[of "CHR ''{''" e "CHR ''}''"] by simp
  ultimately show ?thesis using Braced by (simp add: stored_value_def Let_def)
next
  case (Quoted q w)
  assume "val_ok v"
  with Quoted have q: "q = dquote \<or> q = squote" by simp
  then have sp: "\<not> is_ws q" "q \<noteq> CHR ''{''"
    by (auto simp: dquote_def squote_def is_ws_def)
  have "js_trim (q # w @ [q]) = q # w @ [q]"
    using sp by (intro js_trim_id) simp_all
  then show ?thesis using Quoted sp by (simp add: stored_value_def Let_def)
qed

lemma val_pairs:
  "val_pairs_ok pairs \<Longrightarrow>
   pairs_ok (map (\<lambda>(K, v). (K, val_text v)) pairs) \<and>
   attr_text (map (\<lambda>(K, v). (K, val_text v)) pairs) T = val_attr_text pairs T \<and>
   store_all (map (\<lambda>(K, v). (K, val_text v)) pairs) ps = val_store pairs ps"
proof (induction pairs arbitrary: ps)
  case Nil
  then show ?case
    by (simp add: pairs_ok_def attr_text_def val_attr_text_def store_all_def val_store_def)
next
  case (Cons p pairs)
  obtain K v where p: "p = (K, v)" by (cases p)
  from Cons.prems p have ok: "key_text K" "val_ok v" "val_pairs_ok pairs"
    by (simp_all add: val_pairs_ok_def)
  from Cons.IH[OF ok(3), of "obj_set (js_trim K) (val_stored v) ps"] ok(1)
    val_whole[OF ok(2)] val_stored_value[OF ok(2)]
  show ?case
    by (simp add: p pairs_ok_def attr_text_def val_attr_text_def store_all_def val_store_def)
qed

text \<open>An occurrence is found by \<^verbatim>\<open>includes\<close>; every element occurs in the joined text.\<close>

lemma index_from_occurs: "index_from i p (a @ p @ b) \<noteq> - 1"
proof (induction a arbitrary: i)
  case Nil
  have "js_startsWith (p @ b) p" by (simp add: js_startsWith_def)
  then show ?case by (cases "p @ b") simp_all
next
  case (Cons c a)
  then show ?case by simp
qed

lemma js_includes_occurs: "js_includes (a @ p @ b) p"
  by (simp add: js_includes_def js_indexOf_def index_from_occurs)

lemma js_join_occurs: "y \<in> set ys \<Longrightarrow> \<exists>a b. js_join ys = a @ y @ b"
proof (induction ys rule: js_join.induct)
  case 1
  then show ?case by simp
next
  case (2 x)
  then have "js_join [x] = [] @ y @ []" by simp
  then show ?case by blast
next
  case (3 x z zs)
  show ?case
  proof (cases "y = x")
    case True
    then have "js_join (x # z # zs) = [] @ y @ ('','' @ js_join (z # zs))" by simp
    then show ?thesis by blast
  next
    case False
    with 3 obtain a b where "js_join (z # zs) = a @ y @ b" by auto
    then have "js_join (x # z # zs) = (x @ '','' @ a) @ y @ b" by simp
    then show ?thesis by blast
  qed
qed

lemma stringify_embeds: "(k, x) \<in> set ps \<Longrightarrow> js_includes (stringify ps) (k @ '':'' @ x)"
proof -
  assume "(k, x) \<in> set ps"
  then have "k @ '':'' @ x \<in> set (map (\<lambda>(key, element). key @ '':'' @ element) ps)"
    by force
  from js_join_occurs[OF this] obtain a b
    where "js_join (map (\<lambda>(key, element). key @ '':'' @ element) ps) = a @ (k @ '':'' @ x) @ b"
    by blast
  then have "stringify ps = (''{'' @ a) @ (k @ '':'' @ x) @ (b @ ''}'')"
    by (simp add: stringify_def)
  then show ?thesis by (simp only: js_includes_occurs)
qed

text \<open>
  Claim C9, as amended. Take a raw attribute string that consists of pairs \<^verbatim>\<open>K=v\<close>, each
  followed by one space character (a line feed or a tab does not separate pairs), and
  then either a tail \<open>T\<close> or a last pair \<^verbatim>\<open>K=v\<close> that ends the string, where every \<open>K\<close> and
  \<open>T\<close> are key texts and every value \<open>v\<close> is \<^verbatim>\<open>{e}\<close> or a text \<open>w\<close> between two equal quotes
  that do not occur in \<open>w\<close>. A value \<^verbatim>\<open>{e}\<close> is to be such that \<^verbatim>\<open>e}\<close>, read from inside braces
  by the scanner (which leaves the braces at the first \<^verbatim>\<open>}\<close>, counts no nesting, and enters
  quotes or braces again at a quote or \<^verbatim>\<open>{\<close>), has no space or \<^verbatim>\<open>=\<close> outside braces and
  quotes and ends outside them; every \<open>e\<close> without \<^verbatim>\<open>}\<close> is such, and so is \<^verbatim>\<open>{a}{b}\<close>. Then every
  pair is stored by \<^verbatim>\<open>attrs[K.trim()] = value\<close>, in the order of the string: for \<^verbatim>\<open>{e}\<close> the
  value is \<open>e\<close> without the outer braces and trimmed, for a quoted value it is the value
  with its quotes. The attributes expression of any attribute object is the list of
  its properties, each as \<^verbatim>\<open>key:value\<close> with the stored value as it is, joined by commas
  between braces.

  The claim as stated fails for a brace-wrapped expression with an inner closing brace
  followed by a space, \<^verbatim>\<open>x={ {a:1} }\<close> stores \<^verbatim>\<open>{a:1\<close>; and for two pairs separated by a line
  feed, where the second pair is taken into the value of the first.
\<close>

theorem brace_and_quoted_values_stored:
  assumes "val_pairs_ok pairs" and "key_text T" and "key_text K" and "val_ok v"
    and "(k, x) \<in> set ps"
  shows "parseProps (val_attr_text pairs T) = val_store pairs [] \<and>
         parseProps (val_attr_text pairs (K @ ''='' @ val_text v)) =
           (if js_trim K = [] then val_store pairs []
            else obj_set (js_trim K) (val_stored v) (val_store pairs [])) \<and>
         stringify ps = ''{'' @ js_join (map (\<lambda>(k, x). k @ '':'' @ x) ps) @ ''}'' \<and>
         js_includes (stringify ps) (k @ '':'' @ x)"
proof -
  let ?P = "map (\<lambda>(K, v). (K, val_text v)) pairs"
  note vp = val_pairs[OF assms(1)]
  from vp[of "[]" "[]"] have ok: "pairs_ok ?P" by simp
  have 1: "parseProps (val_attr_text pairs T) = val_store pairs []"
    using parseProps_pairs_tail[OF ok assms(2)] vp[of T "[]"] by simp
  have 2: "parseProps (val_attr_text pairs (K @ ''='' @ val_text v)) =
           (if js_trim K = [] then val_store pairs []
            else obj_set (js_trim K) (val_stored v) (val_store pairs []))"
    using parseProps_pairs_last[OF ok assms(3) val_whole[OF assms(4)]]
      vp[of "K @ ''='' @ val_text v" "[]"] val_stored_value[OF assms(4)]
    by simp
  have 3: "stringify ps = ''{'' @ js_join (map (\<lambda>(k, x). k @ '':'' @ x) ps) @ ''}''"
    by (simp add: stringify_def)
  from 1 2 3 stringify_embeds[OF assms(5)] show ?thesis by blast
qed

theorem brace_and_quoted_values_stored_witness:
  \<open>parseProps ''onClick={() => setCount((count) => count + 1)} className="11" style={{a}{b}} x'' =
     [(''onClick'', ''() => setCount((count) => count + 1)''), (''className'', ''"11"''),
      (''style'', ''{a}{b}'')] \<and>
   parseProps ''onClick={() => setCount((count) => count + 1)} className="11" style={{a}{b}} id={ a }'' =
     [(''onClick'', ''() => setCount((count) => count + 1)''), (''className'', ''"11"''),
      (''style'', ''{a}{b}''), (''id'', ''a'')] \<and>
   stringify [(''onClick'', ''() => setCount((count) => count + 1)''), (''className'', ''"11"'')] =
     ''{onClick:() => setCount((count) => count + 1),className:"11"}'' \<and>
   js_includes
     (stringify [(''onClick'', ''() => setCount((count) => count + 1)''), (''className'', ''"11"'')])
     ''className:"11"''\<close>
proof -
  let ?pairs = "[(''onClick'', Braced ''() => setCount((count) => count + 1)''),
                 (''className'', Quoted dquote ''11''), (''style'', Braced ''{a}{b}'')]"
  have h: "val_pairs_ok ?pairs" "key_text ''x''" "key_text ''id''" "val_ok (Braced '' a '')"
    \<open>(''className'', ''"11"'') \<in>
       set [(''onClick'', ''() => setCount((count) => count + 1)''), (''className'', ''"11"'')]\<close>
    by code_simp+
  have e: \<open>val_attr_text ?pairs ''x'' =
      ''onClick={() => setCount((count) => count + 1)} className="11" style={{a}{b}} x''\<close>
    \<open>val_attr_text ?pairs (''id'' @ ''='' @ val_text (Braced '' a '')) =
      ''onClick={() => setCount((count) => count + 1)} className="11" style={{a}{b}} id={ a }''\<close>
    by code_simp+
  have r: \<open>val_store ?pairs [] =
      [(''onClick'', ''() => setCount((count) => count + 1)''), (''className'', ''"11"''),
       (''style'', ''{a}{b}'')]\<close>
    \<open>(if js_trim ''id'' = []
      then [(''onClick'', ''() => setCount((count) => count + 1)''), (''className'', ''"11"''),
            (''style'', ''{a}{b}'')]
      else obj_set (js_trim ''id'') (val_stored (Braced '' a ''))
            [(''onClick'', ''() => setCount((count) => count + 1)''), (''className'', ''"11"''),
             (''style'', ''{a}{b}'')]) =
      [(''onClick'', ''() => setCount((count) => count + 1)''), (''className'', ''"11"''),
       (''style'', ''{a}{b}''), (''id'', ''a'')]\<close>
    \<open>''{'' @ js_join (map (\<lambda>(k, x). k @ '':'' @ x)
       [(''onClick'', ''() => setCount((count) => count + 1)''), (''className'', ''"11"'')]) @ ''}'' =
      ''{onClick:() => setCount((count) => count + 1),className:"11"}''\<close>
    \<open>''className'' @ '':'' @ ''"11"'' = ''className:"11"''\<close>
    by code_simp+
  from brace_and_quoted_values_stored[OF h] show ?thesis
    unfolding e r .
qed

theorem brace_value_counterexample:
  \<open>parseProps ''x={ {a:1} }'' = [(''x'', ''{a:1'')] \<and>
   parseProps (''a={x}'' @ [CHR 0x0A] @ ''b={y}'') = [(''a'', ''x}'' @ [CHR 0x0A] @ ''b{y'')]\<close>
  by code_simp

section \<open>The text-interpolation parser\<close>

text \<open>
  An identifier character is a character of the class \<^verbatim>\<open>[a-zA-Z0-9]\<close> of the pattern
  \<^verbatim>\<open>JSX_INTERPOLATION\<close>.
\<close>

definition is_alnum :: "char \<Rightarrow> bool" where
  "is_alnum c = list_ex (\<lambda>k. in_cclass k c)
     [CRange CHR ''a'' CHR ''z'', CRange CHR ''A'' CHR ''Z'', CRange CHR ''0'' CHR ''9'']"

definition alnum :: regex where
  "alnum = Cls [CRange CHR ''a'' CHR ''z'', CRange CHR ''A'' CHR ''Z'', CRange CHR ''0'' CHR ''9'']"

text \<open>
  Written by hand: the identifier of a marker \<^verbatim>\<open>{identifier}\<close> at the head of a text, if there
  is one; and the texts in which no marker starts.
\<close>

definition marker_at :: "string \<Rightarrow> string option" where
  "marker_at s =
     (case s of
        [] \<Rightarrow> None
      | c # cs \<Rightarrow>
          (let v = takeWhile is_alnum cs; r = dropWhile is_alnum cs
           in if c = CHR ''{'' \<and> v \<noteq> [] \<and> r \<noteq> [] \<and> hd r = CHR ''}'' then Some v else None))"

fun marker_free :: "string \<Rightarrow> bool" where
  "marker_free [] = True"
| "marker_free (c # cs) = (marker_at (c # cs) = None \<and> marker_free cs)"

lemma alnum_not_brace: "is_alnum c \<Longrightarrow> c \<noteq> CHR ''}'' \<and> c \<noteq> CHR ''{''"
  by (auto simp: is_alnum_def)

text \<open>
  A quantified character class followed by a continuation that fails on every character
  of the class: only the longest run is left.
\<close>

lemma star_greedy_run:
  assumes f: "\<And>p x xs cs. f (p, x # xs, cs) = (if P x then [(Suc p, xs, cs)] else [])"
             "\<And>p cs. f (p, [], cs) = []"
    and k: "\<And>p x xs cs. P x \<Longrightarrow> k (p, x # xs, cs) = []"
  shows "list_all P v \<Longrightarrow> rest = [] \<or> \<not> P (hd rest) \<Longrightarrow> length v \<le> n \<Longrightarrow>
         concat (map k (star_greedy n f (p, v @ rest, cs))) = k (p + length v, rest, cs)"
proof (induction v arbitrary: p n)
  case Nil
  have "f (p, rest, cs) = []" using Nil.prems(2) f by (cases rest) auto
  then have "star_greedy n f (p, rest, cs) = [(p, rest, cs)]" by (cases n) simp_all
  then show ?case by simp
next
  case (Cons x v)
  from Cons.prems obtain m where n: "n = Suc m" and m: "length v \<le> m" by (cases n) auto
  from Cons.prems have x: "P x" and v: "list_all P v" by simp_all
  have "star_greedy n f (p, (x # v) @ rest, cs) =
        star_greedy m f (Suc p, v @ rest, cs) @ [(p, x # v @ rest, cs)]"
    using x by (simp add: n f)
  then have "concat (map k (star_greedy n f (p, (x # v) @ rest, cs))) =
        concat (map k (star_greedy m f (Suc p, v @ rest, cs))) @ k (p, x # v @ rest, cs)"
    by simp
  also have "\<dots> = k (Suc p + length v, rest, cs)"
    using Cons.IH[OF v Cons.prems(2) m] k[OF x] by simp
  finally show ?case by simp
qed

lemma cls_single:
  "rmatch (Cls K) (p, x # xs, cs) = (if list_ex (\<lambda>k. in_cclass k x) K then [(Suc p, xs, cs)] else [])"
  "rmatch (Cls K) (p, [], cs) = []"
  "rmatch (NCls K) (p, x # xs, cs) = (if \<not> list_ex (\<lambda>k. in_cclass k x) K then [(Suc p, xs, cs)] else [])"
  "rmatch (NCls K) (p, [], cs) = []"
  by simp_all

text \<open>
  The pattern at an opening brace followed by a run of identifier characters: what is
  left is to match the closing brace after the whole run.
\<close>

lemma marker_run:
  assumes "v \<noteq> []" "list_all is_alnum v" "rest = [] \<or> \<not> is_alnum (hd rest)"
  shows "rmatch JSX_INTERPOLATION (p, ''{'' @ v @ rest, []) =
         rmatch (Lit CHR ''}'') (p + length v + 1, rest, [(1, v)])"
proof -
  from assms obtain x w where v: "v = x # w" and x: "is_alnum x" and w: "list_all is_alnum w"
    by (cases v) auto
  let ?cap = "\<lambda>(p', s', cs'). (p', s', (1::nat, take (p' - Suc p) (v @ rest)) # cs')"
  let ?k = "\<lambda>st. rmatch (Lit CHR ''}'') (?cap st)"
  let ?f = "rmatch alnum"
  have f: "\<And>p x xs cs. ?f (p, x # xs, cs) = (if is_alnum x then [(Suc p, xs, cs)] else [])"
    "\<And>p cs. ?f (p, [], cs) = []"
    by (simp_all add: alnum_def is_alnum_def)
  have k: "\<And>p x xs cs. is_alnum x \<Longrightarrow> ?k (p, x # xs, cs) = []"
    using alnum_not_brace by auto
  have run: "concat (map ?k (star_greedy (length (w @ rest)) ?f
                (Suc (Suc p), w @ rest, []))) =
             ?k (Suc (Suc p) + length w, rest, [])"
    using assms(3) alnum_not_brace
    by (intro star_greedy_run[where P = is_alnum]) (auto simp: f w)
  have plus: "rmatch (Plus alnum) (Suc p, v @ rest, []) =
              star_greedy (length (w @ rest)) ?f (Suc (Suc p), w @ rest, [])"
    using x by (simp add: Plus_def v f)
  have "rmatch JSX_INTERPOLATION (p, ''{'' @ v @ rest, []) =
        concat (map (rmatch (Lit CHR ''}''))
          (map ?cap (rmatch (Plus alnum) (Suc p, v @ rest, []))))"
    by (simp add: JSX_INTERPOLATION_def alnum_def)
  also have "\<dots> = concat (map ?k (rmatch (Plus alnum) (Suc p, v @ rest, [])))"
    by (simp add: comp_def)
  also have "\<dots> = ?k (Suc (Suc p) + length w, rest, [])"
    by (simp only: plus run)
  also have "\<dots> = rmatch (Lit CHR ''}'') (p + length v + 1, rest, [(1, v)])"
    by (simp add: v)
  finally show ?thesis .
qed

text \<open>A marker at the head of the input is matched in one way.\<close>

lemma marker_match:
  assumes "v \<noteq> []" "list_all is_alnum v"
  shows "rmatch JSX_INTERPOLATION (p, ''{'' @ v @ ''}'' @ rest, []) =
         [(p + length v + 2, rest, [(1, v)])]"
proof -
  have "\<not> is_alnum CHR ''}''" using alnum_not_brace by blast
  then have "rmatch JSX_INTERPOLATION (p, ''{'' @ v @ (''}'' @ rest), []) =
        rmatch (Lit CHR ''}'') (p + length v + 1, ''}'' @ rest, [(1, v)])"
    by (intro marker_run[OF assms]) simp
  then show ?thesis by simp
qed

declare search.simps [simp del]

lemma no_marker_here:
  "s = [] \<or> hd s \<noteq> CHR ''{'' \<Longrightarrow> rmatch JSX_INTERPOLATION (p, s, cs) = []"
  by (cases s) (auto simp: JSX_INTERPOLATION_def)

lemma lit_step:
  "rmatch (Lit c) (q, r, cs) = (if r \<noteq> [] \<and> hd r = c then [(Suc q, tl r, cs)] else [])"
  by (cases r) auto

text \<open>The pattern matches at the head of a text exactly when a marker stands there.\<close>

lemma marker_at_match:
  "rmatch JSX_INTERPOLATION (p, s, []) =
     (case marker_at s of
        Some v \<Rightarrow> [(p + length v + 2, drop (length v + 2) s, [(1, v)])]
      | None \<Rightarrow> [])"
proof (cases s)
  case Nil
  then show ?thesis by (simp add: no_marker_here marker_at_def)
next
  case (Cons c cs)
  let ?v = "takeWhile is_alnum cs"
  let ?r = "dropWhile is_alnum cs"
  have cs: "cs = ?v @ ?r" by simp
  have r: "?r = [] \<or> \<not> is_alnum (hd ?r)"
    using hd_dropWhile[of is_alnum cs] by blast
  have v: "list_all is_alnum ?v" by (auto simp: list_all_iff dest: set_takeWhileD)
  show ?thesis
  proof (cases "c = CHR ''{''")
    case False
    with Cons show ?thesis by (simp add: no_marker_here marker_at_def Let_def)
  next
    case True
    show ?thesis
    proof (cases "?v = []")
      case v_nil: True
      then have "cs = [] \<or> \<not> is_alnum (hd cs)" by (cases cs) (auto split: if_splits)
      then have "rmatch JSX_INTERPOLATION (p, CHR ''{'' # cs, []) = []"
        by (cases cs) (auto simp: JSX_INTERPOLATION_def Plus_def is_alnum_def)
      with Cons True v_nil show ?thesis by (simp add: marker_at_def Let_def)
    next
      case v_ne: False
      have "rmatch JSX_INTERPOLATION (p, ''{'' @ ?v @ ?r, []) =
            rmatch (Lit CHR ''}'') (p + length ?v + 1, ?r, [(1, ?v)])"
        by (rule marker_run[OF v_ne v r])
      then have m: "rmatch JSX_INTERPOLATION (p, s, []) =
            rmatch (Lit CHR ''}'') (p + length ?v + 1, ?r, [(1, ?v)])"
        using Cons True by simp
      have d: "drop (length ?v + 2) s = tl ?r"
      proof -
        have "drop (length ?v + 2) s = drop (length ?v + 1) (?v @ ?r)"
          using Cons by simp
        also have "\<dots> = drop 1 ?r" by (simp del: takeWhile_dropWhile_id)
        finally show ?thesis by (simp add: drop_Suc)
      qed
      have mk: "marker_at s = (if ?r \<noteq> [] \<and> hd ?r = CHR ''}'' then Some ?v else None)"
        unfolding marker_at_def Let_def Cons list.case using True v_ne by (simp only: simp_thms)
      show ?thesis
        using d unfolding m mk lit_step by auto
    qed
  qed
qed

text \<open>
  Whether a marker stands at the head of a text does not depend on what follows an
  opening brace further on: the identifier and its closing brace come before it.
\<close>

lemma marker_at_context:
  assumes "a \<noteq> []"
  shows "marker_at (a @ CHR ''{'' # rest) = marker_at a"
proof -
  from assms obtain c cs where a: "a = c # cs" by (cases a) auto
  show ?thesis
  proof (cases "list_all is_alnum cs")
    case True
    then have t: "takeWhile is_alnum (cs @ CHR ''{'' # rest) = cs"
      "dropWhile is_alnum (cs @ CHR ''{'' # rest) = CHR ''{'' # rest"
      "takeWhile is_alnum cs = cs" "dropWhile is_alnum cs = []"
      using alnum_not_brace[of "CHR ''{''"]
      by (auto simp: list_all_iff takeWhile_append2 dropWhile_append2 takeWhile_eq_all_conv)
    have "marker_at (c # cs @ CHR ''{'' # rest) = None"
      unfolding marker_at_def Let_def list.case t(1,2) by simp
    moreover have "marker_at (c # cs) = None"
      unfolding marker_at_def Let_def list.case t(3,4) by simp
    ultimately show ?thesis by (simp add: a)
  next
    case False
    then obtain x where "x \<in> set cs" "\<not> is_alnum x" by (auto simp: list_all_iff)
    then have t: "takeWhile is_alnum (cs @ CHR ''{'' # rest) = takeWhile is_alnum cs"
      "dropWhile is_alnum (cs @ CHR ''{'' # rest) = dropWhile is_alnum cs @ CHR ''{'' # rest"
      "dropWhile is_alnum cs \<noteq> []"
      by (auto simp: takeWhile_append1 dropWhile_append1 dropWhile_eq_Nil_conv)
    have "marker_at (c # cs @ CHR ''{'' # rest) = marker_at (c # cs)"
      unfolding marker_at_def Let_def list.case t(1,2) using t(3) by (cases "dropWhile is_alnum cs") simp_all
    then show ?thesis by (simp add: a)
  qed
qed

lemma search_skip:
  "marker_free l \<Longrightarrow> s = [] \<or> hd s = CHR ''{'' \<Longrightarrow>
   search JSX_INTERPOLATION p (l @ s) = search JSX_INTERPOLATION (p + length l) s"
proof (induction l arbitrary: p)
  case Nil
  then show ?case by simp
next
  case (Cons c l)
  from Cons.prems(2) have "marker_at ((c # l) @ s) = marker_at (c # l)"
  proof
    assume "s = []"
    then show ?thesis by simp
  next
    assume "hd s = CHR ''{''"
    show ?thesis
    proof (cases s)
      case Nil
      then show ?thesis by simp
    next
      case (Cons x xs)
      with \<open>hd s = CHR ''{''\<close> show ?thesis
        using marker_at_context[of "c # l" xs] by simp
    qed
  qed
  with Cons.prems(1) have "rmatch JSX_INTERPOLATION (p, (c # l) @ s, []) = []"
    by (simp add: marker_at_match)
  then have "search JSX_INTERPOLATION p ((c # l) @ s) = search JSX_INTERPOLATION (Suc p) (l @ s)"
    by (subst search.simps) simp
  also have "\<dots> = search JSX_INTERPOLATION (Suc p + length l) s"
    using Cons.prems by (intro Cons.IH) simp_all
  finally show ?case by simp
qed

lemma search_none:
  "marker_free l \<Longrightarrow> search JSX_INTERPOLATION p l = None"
proof -
  assume l: "marker_free l"
  have "search JSX_INTERPOLATION p (l @ []) = search JSX_INTERPOLATION (p + length l) []"
    using l by (intro search_skip) simp_all
  moreover have "search JSX_INTERPOLATION (p + length l) [] = None"
    by (subst search.simps) (simp add: no_marker_here)
  ultimately show ?thesis by simp
qed

lemma search_marker:
  assumes "marker_free l" "v \<noteq> []" "list_all is_alnum v"
  shows "search JSX_INTERPOLATION p (l @ ''{'' @ v @ ''}'' @ rest) =
         Some (p + length l, (p + length l + length v + 2, rest, [(1, v)]))"
proof -
  have "search JSX_INTERPOLATION p (l @ (''{'' @ v @ ''}'' @ rest)) =
        search JSX_INTERPOLATION (p + length l) (''{'' @ v @ ''}'' @ rest)"
    using assms(1) by (intro search_skip) simp_all
  also have "\<dots> = Some (p + length l, (p + length l + length v + 2, rest, [(1, v)]))"
    by (subst search.simps) (simp only: marker_match[OF assms(2,3)] list.case)
  finally show ?thesis .
qed

declare parseText_loop.simps [simp del]

lemma exec_marker:
  assumes "marker_free l" "v \<noteq> []" "list_all is_alnum v"
  shows "exec JSX_INTERPOLATION (pre @ l @ ''{'' @ v @ ''}'' @ rest) (length pre) =
         (Some \<lparr>m_index = length pre + length l, m_text = ''{'' @ v @ ''}'', m_groups = [(1, v)]\<rparr>,
          length pre + length l + length v + 2)"
proof -
  let ?data = "pre @ l @ ''{'' @ v @ ''}'' @ rest"
  have d: "drop (length pre) ?data = l @ ''{'' @ v @ ''}'' @ rest" by simp
  have t: "take (length pre + length l + length v + 2 - (length pre + length l))
             (drop (length pre + length l) ?data) = ''{'' @ v @ ''}''"
    by (simp add: drop_append)
  show ?thesis
    unfolding exec_def d search_marker[OF assms] using t by simp
qed

lemma exec_none:
  assumes "marker_free t"
  shows "exec JSX_INTERPOLATION (pre @ t) (length pre) = (None, 0)"
  unfolding exec_def by (simp add: search_none[OF assms])

lemma js_slice_mid:
  "js_slice (pre @ l @ rest) (int (length pre)) (int (length pre + length l)) = l"
  by (simp add: js_slice_def Let_def)

lemma js_slice_from_end: "js_slice_from (pre @ t) (int (length pre)) = t"
  by (simp add: js_slice_from_def js_slice_def Let_def)

text \<open>
  The text-interpolation parser as the specification words it: the text is a sequence of
  literal spans and markers; every literal span that is not blank gives a fragment in
  backticks, every marker gives its identifier, and the fragments are joined by commas in
  the order of the text. A text is given by its spans: the pairs of a literal span and
  the identifier of the marker that follows it, and the literal span after the last
  marker. No marker starts inside a literal span; a literal span may hold braces that are
  not part of a marker.
\<close>

fun assemble :: "(string \<times> string) list \<Rightarrow> string \<Rightarrow> string" where
  "assemble [] t = t"
| "assemble ((l, v) # segs) t = l @ ''{'' @ v @ ''}'' @ assemble segs t"

definition literal_fragment :: "string \<Rightarrow> string list" where
  "literal_fragment l = (if js_trim l = [] then [] else [backtick (js_trim l)])"

fun fragments :: "(string \<times> string) list \<Rightarrow> string list" where
  "fragments [] = []"
| "fragments ((l, v) # segs) = literal_fragment l @ [v] @ fragments segs"

definition spans_ok :: "(string \<times> string) list \<Rightarrow> string \<Rightarrow> bool" where
  "spans_ok segs t =
     (list_all (\<lambda>(l, v). marker_free l \<and> v \<noteq> [] \<and> list_all is_alnum v) segs
      \<and> marker_free t)"

lemma parseText_loop_spans:
  "spans_ok segs t \<Longrightarrow>
   parseText_loop (pre @ assemble segs t) (length pre) (int (length pre)) parts =
     (int (length pre + length (assemble segs [])), parts @ fragments segs)"
proof (induction segs arbitrary: pre parts)
  case Nil
  then have "exec JSX_INTERPOLATION (pre @ t) (length pre) = (None, 0)"
    by (intro exec_none) (simp add: spans_ok_def)
  then show ?case by (subst parseText_loop.simps) simp
next
  case (Cons seg segs)
  obtain l v where seg: "seg = (l, v)" by (cases seg)
  from Cons.prems seg have l: "marker_free l" and v: "v \<noteq> []" "list_all is_alnum v"
    and rest: "spans_ok segs t"
    by (simp_all add: spans_ok_def)
  let ?raw = "pre @ l @ ''{'' @ v @ ''}'' @ assemble segs t"
  let ?pre' = "pre @ l @ ''{'' @ v @ ''}''"
  have raw: "pre @ assemble (seg # segs) t = ?raw" by (simp add: seg)
  have raw': "?raw = ?pre' @ assemble segs t" by simp
  have len: "length ?pre' = length pre + length l + length v + 2" by simp
  have ex: "exec JSX_INTERPOLATION ?raw (length pre) =
         (Some \<lparr>m_index = length pre + length l, m_text = ''{'' @ v @ ''}'', m_groups = [(1, v)]\<rparr>,
          length pre + length l + length v + 2)"
    by (rule exec_marker[OF l v])
  have sl: "js_slice ?raw (int (length pre)) (int (length pre + length l)) = l"
    by (rule js_slice_mid)
  have step: "parseText_loop ?raw (length pre) (int (length pre)) parts =
        parseText_loop ?raw (length ?pre') (int (length ?pre')) (parts @ literal_fragment l @ [v])"
    apply (subst parseText_loop.simps)
    apply (simp only: ex prod.case option.case Let_def rx_match.simps sl group1_def)
    apply (simp add: literal_fragment_def algebra_simps)
    done
  have "parseText_loop ?raw (length ?pre') (int (length ?pre')) (parts @ literal_fragment l @ [v]) =
        (int (length ?pre' + length (assemble segs [])), (parts @ literal_fragment l @ [v]) @ fragments segs)"
    by (subst raw') (rule Cons.IH[OF rest])
  with step show ?case by (simp add: raw seg)
qed

lemma search_found:
  "search r p s = Some (i, st') \<Longrightarrow> p \<le> i \<and> st' \<in> set (rmatch r (i, drop (i - p) s, []))"
proof (induction r p s rule: search.induct)
  case (1 r p s)
  show ?case
  proof (cases "rmatch r (p, s, [])")
    case Nil
    with "1.prems" obtain c cs where s: "s = c # cs" and "search r (Suc p) cs = Some (i, st')"
      by (subst (asm) search.simps) (auto split: list.splits)
    with "1.IH"[OF Nil s] have "Suc p \<le> i" "st' \<in> set (rmatch r (i, drop (i - Suc p) cs, []))"
      by auto
    moreover from \<open>Suc p \<le> i\<close> have "i - p = Suc (i - Suc p)" by arith
    then have "drop (i - p) s = drop (i - Suc p) cs" by (simp add: s)
    ultimately show ?thesis by simp
  next
    case (Cons a list)
    with "1.prems" have "i = p" "st' = a" by (subst (asm) search.simps, simp)+
    with Cons show ?thesis by simp
  qed
qed

lemma star_greedy_mem:
  assumes f: "\<And>p x xs cs. f (p, x # xs, cs) = (if P x then [(Suc p, xs, cs)] else [])"
             "\<And>p cs. f (p, [], cs) = []"
  shows "st' \<in> set (star_greedy n f (p, s, cs)) \<Longrightarrow>
         \<exists>u r. s = u @ r \<and> list_all P u \<and> st' = (p + length u, r, cs)"
proof (induction n arbitrary: p s)
  case 0
  then show ?case by simp
next
  case (Suc n)
  from Suc.prems consider "st' = (p, s, cs)"
    | st1 where "st1 \<in> set (f (p, s, cs))" "st' \<in> set (star_greedy n f st1)"
    by (auto split: if_splits)
  then show ?case
  proof cases
    case 1
    then show ?thesis by simp
  next
    case 2
    from 2(1) obtain x xs where s: "s = x # xs" and x: "P x" and st1: "st1 = (Suc p, xs, cs)"
      using f by (cases s) (auto split: if_splits)
    from Suc.IH[OF 2(2)[unfolded st1]] obtain u r where
      "xs = u @ r" "list_all P u" "st' = (Suc p + length u, r, cs)" by blast
    with s x have "s = (x # u) @ r \<and> list_all P (x # u) \<and> st' = (p + length (x # u), r, cs)"
      by simp
    then show ?thesis by blast
  qed
qed

definition not_close :: regex where
  "not_close = NCls [CChar CHR ''}'']"

lemma not_close_single:
  "rmatch not_close (p, x # xs, cs) = (if x \<noteq> CHR ''}'' then [(Suc p, xs, cs)] else [])"
  "rmatch not_close (p, [], cs) = []"
  by (simp_all add: not_close_def)

lemma single_marker_unfold:
  "rmatch single_marker (p, s, cs) =
     (if p = 0 then
        (case s of
           [] \<Rightarrow> []
         | c # s1 \<Rightarrow>
             if c = CHR ''{'' then
               (case s1 of
                  [] \<Rightarrow> []
                | x # s2 \<Rightarrow>
                    if x \<noteq> CHR ''}'' then
                      concat (map (rmatch (Seq (Lit CHR ''}'') Eol))
                        (star_greedy (length s2) (rmatch not_close) (Suc (Suc p), s2, cs)))
                    else [])
             else [])
      else [])"
  by (simp add: single_marker_def Plus_def not_close_def split: list.splits)

text \<open>The pattern \<^verbatim>\<open>/^\{[^}]+\}$/\<close> matches exactly the texts \<^verbatim>\<open>{u}\<close> with \<open>u\<close> non-empty and free of \<^verbatim>\<open>}\<close>.\<close>

lemma single_marker_complete:
  assumes "u \<noteq> []" "CHR ''}'' \<notin> set u"
  shows "rx_test single_marker (''{'' @ u @ ''}'')"
proof -
  from assms obtain x w where u: "u = x # w" and x: "x \<noteq> CHR ''}''" and w: "CHR ''}'' \<notin> set w"
    by (cases u) auto
  let ?k = "rmatch (Seq (Lit CHR ''}'') Eol)"
  let ?run = "star_greedy (length (w @ ''}'')) (rmatch not_close) (Suc (Suc 0), w @ ''}'', [])"
  have w': "list_all (\<lambda>c. c \<noteq> CHR ''}'') w" using w by (auto simp: list_all_iff)
  have run: "concat (map ?k ?run) = ?k (Suc (Suc 0) + length w, ''}'', [])"
    by (intro star_greedy_run[where P = "\<lambda>c. c \<noteq> CHR ''}''"])
       (simp_all add: not_close_single w')
  have eq: "''{'' @ u @ ''}'' = CHR ''{'' # x # w @ ''}''" by (simp add: u)
  have "rmatch single_marker (0, CHR ''{'' # x # w @ ''}'', []) = concat (map ?k ?run)"
    unfolding single_marker_unfold using x by (simp del: star_greedy.simps length_append)
  also note run
  also have "?k (Suc (Suc 0) + length w, ''}'', []) = [(Suc (Suc (Suc (length w))), [], [])]"
    by simp
  finally have "rmatch single_marker (0, ''{'' @ u @ ''}'', []) =
      [(Suc (Suc (Suc (length w))), [], [])]"
    by (simp only: eq)
  then have "search single_marker 0 (''{'' @ u @ ''}'') \<noteq> None"
    by (subst search.simps) (simp only: list.case, simp)
  then show ?thesis by (simp add: rx_test_def)
qed

lemma single_marker_sound:
  assumes "rx_test single_marker s"
  shows "\<exists>u. s = ''{'' @ u @ ''}'' \<and> u \<noteq> [] \<and> CHR ''}'' \<notin> set u"
proof -
  let ?k = "rmatch (Seq (Lit CHR ''}'') Eol)"
  from assms obtain i st where "search single_marker 0 s = Some (i, st)"
    by (auto simp: rx_test_def)
  from search_found[OF this] have mem: "st \<in> set (rmatch single_marker (i, drop i s, []))" by simp
  have i: "i = 0"
  proof (rule ccontr)
    assume "i \<noteq> 0"
    then have "rmatch single_marker (i, drop i s, []) = []" by (simp add: single_marker_unfold)
    with mem show False by simp
  qed
  with mem have mem0: "st \<in> set (rmatch single_marker (0, s, []))" by simp
  obtain c s1 where s: "s = c # s1"
  proof (cases s)
    case Nil
    with mem0 show ?thesis by (simp add: single_marker_unfold)
  next
    case (Cons c s1)
    then show ?thesis by (rule that)
  qed
  have c: "c = CHR ''{''"
  proof (rule ccontr)
    assume "c \<noteq> CHR ''{''"
    with mem0 s show False by (simp add: single_marker_unfold)
  qed
  obtain x s2 where s1: "s1 = x # s2"
  proof (cases s1)
    case Nil
    with mem0 s c show ?thesis by (simp add: single_marker_unfold)
  next
    case (Cons x s2)
    then show ?thesis by (rule that)
  qed
  have x: "x \<noteq> CHR ''}''"
  proof
    assume "x = CHR ''}''"
    with mem0 s c s1 show False by (simp add: single_marker_unfold)
  qed
  have "rmatch single_marker (0, s, []) =
        concat (map ?k (star_greedy (length s2) (rmatch not_close) (Suc (Suc 0), s2, [])))"
    unfolding single_marker_unfold using s c s1 x by (simp del: star_greedy.simps)
  with mem0 obtain st3
    where st3: "st3 \<in> set (star_greedy (length s2) (rmatch not_close) (Suc (Suc 0), s2, []))"
    and fin: "st \<in> set (?k st3)"
    by (auto simp del: star_greedy.simps rmatch.simps)
  from star_greedy_mem[where P = "\<lambda>c. c \<noteq> CHR ''}''", OF not_close_single st3]
  obtain u r where u: "s2 = u @ r" "list_all (\<lambda>c. c \<noteq> CHR ''}'') u"
    "st3 = (Suc (Suc 0) + length u, r, [])"
    by blast
  from fin u(3) have "r = ''}''"
    by (cases r) (auto split: if_splits)
  with s c s1 u x have "s = ''{'' @ (x # u) @ ''}'' \<and> x # u \<noteq> [] \<and> CHR ''}'' \<notin> set (x # u)"
    by (auto simp: list_all_iff)
  then show ?thesis by blast
qed

lemma collapse_run_blank: "list_all is_ws s \<Longrightarrow> list_all is_ws (collapse_run b s)"
  by (induction s arbitrary: b) (auto simp: is_ws_def)

lemma trim_collapse_blank:
  assumes "js_trim text = []"
  shows "js_trim (collapse_ws text) = []"
  using assms collapse_run_blank[of "text" False]
  by (simp add: js_trim_empty_iff collapse_ws_def)

lemma assemble_append: "assemble segs t = assemble segs [] @ t"
  by (induction segs) auto

lemma has_marker:
  assumes "spans_ok ((l, v) # segs) t"
  shows "rx_test JSX_INTERPOLATION (assemble ((l, v) # segs) t)"
proof -
  from assms have l: "marker_free l" and v: "v \<noteq> []" "list_all is_alnum v"
    by (simp_all add: spans_ok_def)
  have "search JSX_INTERPOLATION 0 (l @ ''{'' @ v @ ''}'' @ assemble segs t) \<noteq> None"
    by (simp only: search_marker[OF l v]) simp
  then show ?thesis by (simp add: rx_test_def)
qed

text \<open>
  Claim C6. A text node whose collapsed and trimmed content is exactly one marker
  \<^verbatim>\<open>{identifier}\<close>, the identifier alphanumeric, translates to the bare identifier, without
  backticks.
\<close>

theorem sole_marker_bare_identifier:
  assumes "js_trim (collapse_ws text) = ''{'' @ v @ ''}''" "v \<noteq> []" "list_all is_alnum v"
  shows "parseText text = v \<and> translate (TextNode text) = Inr (Some v)"
proof -
  have ok: "spans_ok [([], v)] []" using assms(2,3) by (simp add: spans_ok_def)
  have m: "rx_test JSX_INTERPOLATION (''{'' @ v @ ''}'')"
    using has_marker[OF ok] by simp
  have "CHR ''}'' \<notin> set v"
    using assms(3) alnum_not_brace by (auto simp: list_all_iff)
  from single_marker_complete[OF assms(2) this]
  have s: "rx_test single_marker (''{'' @ v @ ''}'')" .
  have sl: "js_slice (''{'' @ v @ ''}'') 1 (- 1) = v"
    using js_slice_inner[of "CHR ''{''" v "CHR ''}''"] by simp
  have p: "parseText text = v"
    unfolding parseText_def Let_def assms(1) using m s sl by (simp only: if_True)
  have "js_trim text \<noteq> []"
    using trim_collapse_blank[of "text"] assms(1) by auto
  with p show ?thesis by simp
qed

theorem sole_marker_bare_identifier_witness:
  "js_trim (collapse_ws [CHR '' '', CHR '' '', CHR ''{'', CHR ''n'', CHR ''1'', CHR ''}'', CHR 0x0A]) = ''{n1}'' \<and>
   parseText [CHR '' '', CHR '' '', CHR ''{'', CHR ''n'', CHR ''1'', CHR ''}'', CHR 0x0A] = ''n1'' \<and>
   translate (TextNode [CHR '' '', CHR '' '', CHR ''{'', CHR ''n'', CHR ''1'', CHR ''}'', CHR 0x0A]) =
     Inr (Some ''n1'')"
proof -
  have h: "js_trim (collapse_ws [CHR '' '', CHR '' '', CHR ''{'', CHR ''n'', CHR ''1'', CHR ''}'', CHR 0x0A]) =
           ''{'' @ ''n1'' @ ''}''"
    "''n1'' \<noteq> []" "list_all is_alnum ''n1''"
    by code_simp+
  from sole_marker_bare_identifier[OF h] h(1) show ?thesis by simp
qed

text \<open>
  Every text is made of such spans, and of at least one marker when the pattern finds a
  match in it.
\<close>

lemma marker_atD:
  assumes "marker_at s = Some v"
  shows "v \<noteq> [] \<and> list_all is_alnum v \<and> (\<exists>rest. s = ''{'' @ v @ ''}'' @ rest)"
proof -
  from assms obtain c cs where s: "s = c # cs" by (cases s) (auto simp: marker_at_def)
  let ?r = "dropWhile is_alnum cs"
  from assms s have c: "c = CHR ''{''" and v: "v = takeWhile is_alnum cs" "v \<noteq> []"
    and r: "?r \<noteq> []" "hd ?r = CHR ''}''"
    by (auto simp: marker_at_def Let_def split: if_splits)
  from r have "?r = CHR ''}'' # tl ?r" by (cases ?r) simp_all
  moreover have "cs = takeWhile is_alnum cs @ ?r" by simp
  ultimately have "cs = v @ CHR ''}'' # tl ?r" using v(1) by simp
  moreover have "list_all is_alnum v"
    using v(1) by (auto simp: list_all_iff dest: set_takeWhileD)
  ultimately show ?thesis using s c v(2) by auto
qed

lemma text_has_spans:
  "\<exists>segs t. raw = assemble segs t \<and> spans_ok segs t \<and>
            (rx_test JSX_INTERPOLATION raw \<longrightarrow> segs \<noteq> [])"
proof (induction raw rule: measure_induct_rule[of length])
  case (less raw)
  show ?case
  proof (cases "marker_at raw")
    case (Some v)
    from marker_atD[OF Some] obtain rest where v: "v \<noteq> []" "list_all is_alnum v"
      and raw: "raw = ''{'' @ v @ ''}'' @ rest"
      by blast
    then have "length rest < length raw" by simp
    from less.IH[OF this] obtain segs t where "rest = assemble segs t" "spans_ok segs t"
      by blast
    with v raw have "raw = assemble (([], v) # segs) t \<and> spans_ok (([], v) # segs) t \<and>
        (([], v) # segs) \<noteq> []"
      by (simp add: spans_ok_def)
    then show ?thesis by blast
  next
    case None
    show ?thesis
    proof (cases raw)
      case Nil
      then have "raw = assemble [] [] \<and> spans_ok [] [] \<and> \<not> rx_test JSX_INTERPOLATION raw"
        by (simp add: spans_ok_def rx_test_def search_none)
      then show ?thesis by blast
    next
      case (Cons c cs)
      then have "length cs < length raw" by simp
      from less.IH[OF this] obtain segs t where cs: "cs = assemble segs t" and ok: "spans_ok segs t"
        by blast
      show ?thesis
      proof (cases segs)
        case Nil
        with cs ok None Cons have free: "marker_free raw" by (simp add: spans_ok_def)
        then have "\<not> rx_test JSX_INTERPOLATION raw" by (simp add: rx_test_def search_none)
        with free have "raw = assemble [] raw \<and> spans_ok [] raw \<and>
            (rx_test JSX_INTERPOLATION raw \<longrightarrow> [] \<noteq> ([] :: (string \<times> string) list))"
          by (simp add: spans_ok_def)
        then show ?thesis by blast
      next
        case (Cons seg segs')
        obtain l v where seg: "seg = (l, v)" by (cases seg)
        from cs Cons seg have raw: "raw = (c # l) @ CHR ''{'' # (v @ ''}'' @ assemble segs' t)"
          using \<open>raw = c # cs\<close> by simp
        have "marker_at (c # l) = marker_at raw"
          unfolding raw by (rule marker_at_context[symmetric]) simp
        with None have "marker_at (c # l) = None" by simp
        with ok Cons seg have "spans_ok ((c # l, v) # segs') t" by (simp add: spans_ok_def)
        moreover from raw have "raw = assemble ((c # l, v) # segs') t" by simp
        ultimately show ?thesis by blast
      qed
    qed
  qed
qed

text \<open>
  The texts on which the shortcut pattern \<^verbatim>\<open>/^\{[^}]+\}$/\<close> matches something that is not one
  marker: \<^verbatim>\<open>{u}\<close> with \<open>u\<close> free of \<^verbatim>\<open>}\<close> and not made of identifier characters only.
\<close>

definition stray_wrapped :: "string \<Rightarrow> bool" where
  "stray_wrapped raw =
     (2 < length raw \<and> hd raw = CHR ''{'' \<and> last raw = CHR ''}'' \<and>
      list_all (\<lambda>c. c \<noteq> CHR ''}'') (butlast (tl raw)) \<and>
      list_ex (\<lambda>c. \<not> is_alnum c) (butlast (tl raw)))"

text \<open>
  Claim C5, as amended. Take a text whose collapsed and trimmed form consists of
  literal spans in which no marker starts (they may hold braces) and of at least one
  marker \<^verbatim>\<open>{identifier}\<close>, and is not of the shape \<^verbatim>\<open>{u}\<close> with \<open>u\<close> free of \<^verbatim>\<open>}\<close> and not an
  identifier. The parser emits, joined by commas and in the order of the text, every
  literal span trimmed and in backticks (a span that is blank after trimming is left
  out) and every identifier bare. For \<^verbatim>\<open>Hello {name}!\<close> it yields \<^verbatim>\<open>`Hello`,name,`!`\<close>: the
  first literal fragment does not keep its trailing space.
\<close>

theorem interpolated_text_fragments:
  assumes "js_trim (collapse_ws text) = assemble segs t" "segs \<noteq> []" "spans_ok segs t"
    and "\<not> stray_wrapped (assemble segs t)"
  shows "parseText text = js_join (fragments segs @ literal_fragment t) \<and>
         parseText ''Hello {name}!'' = ''`Hello`,name,`!`''"
proof -
  let ?raw = "assemble segs t"
  from assms(2) obtain l v segs' where segs: "segs = (l, v) # segs'"
    by (cases segs) auto
  from assms(3) segs have l: "marker_free l" and v: "v \<noteq> []" "list_all is_alnum v"
    by (simp_all add: spans_ok_def)
  have m: "rx_test JSX_INTERPOLATION ?raw" using has_marker assms(3) segs by simp
  have general: "parseText text = js_join (fragments segs @ literal_fragment t)"
  proof (cases "rx_test single_marker ?raw")
    case True
    from single_marker_sound[OF True] obtain u
      where u: "?raw = ''{'' @ u @ ''}''" "u \<noteq> []" "CHR ''}'' \<notin> set u"
      by blast
    have "butlast (tl ?raw) = u" "hd ?raw = CHR ''{''" "last ?raw = CHR ''}''" "2 < length ?raw"
      using u(2) unfolding u(1) by (simp_all add: butlast_append)
    with assms(4) u(3) have alnum_u: "list_all is_alnum u"
      by (auto simp: stray_wrapped_def list_all_iff list_ex_iff)
    have raw: "?raw = l @ ''{'' @ v @ ''}'' @ assemble segs' t" by (simp add: segs)
    have l_nil: "l = []"
    proof (cases l)
      case Nil
      then show ?thesis .
    next
      case (Cons c l')
      with raw u(1) have "u @ ''}'' = l' @ ''{'' @ v @ ''}'' @ assemble segs' t" by simp
      then have "CHR ''{'' \<in> set (u @ ''}'')" by simp
      then have "CHR ''{'' \<in> set u" by simp
      with alnum_u alnum_not_brace show ?thesis by (auto simp: list_all_iff)
    qed
    have nv: "CHR ''}'' \<notin> set v" using v(2) alnum_not_brace by (auto simp: list_all_iff)
    from raw u(1) l_nil have eq: "u @ ''}'' = v @ CHR ''}'' # assemble segs' t" by simp
    have "takeWhile (\<lambda>c. c \<noteq> CHR ''}'') (u @ ''}'') = u"
      using u(3) by (auto simp: takeWhile_tail)
    moreover have "takeWhile (\<lambda>c. c \<noteq> CHR ''}'') (v @ CHR ''}'' # assemble segs' t) = v"
      using nv by (auto simp: takeWhile_tail)
    ultimately have uv: "u = v" using eq by simp
    with eq have "assemble segs' t = []" by simp
    then have rest: "segs' = []" "t = []" by (cases segs'; auto)+
    have "parseText text = js_slice (''{'' @ u @ ''}'') 1 (- 1)"
      unfolding parseText_def Let_def assms(1) using m True u(1) by simp
    also have "\<dots> = v" using js_slice_inner[of "CHR ''{''" u "CHR ''}''"] uv by simp
    finally show ?thesis
      by (simp add: segs rest l_nil literal_fragment_def)
  next
    case False
    have loop: "parseText_loop ?raw 0 0 [] = (int (length (assemble segs [])), fragments segs)"
      using parseText_loop_spans[OF assms(3), of "[]" "[]"] by simp
    have rem: "js_slice_from ?raw (int (length (assemble segs []))) = t"
      using js_slice_from_end[of "assemble segs []" t] assemble_append[of segs t] by simp
    show ?thesis
      unfolding parseText_def Let_def assms(1) using m False
      by (simp add: loop rem literal_fragment_def)
  qed
  have "parseText ''Hello {name}!'' = ''`Hello`,name,`!`''" by code_simp
  with general show ?thesis by simp
qed

theorem interpolated_text_fragments_witness:
  "parseText ''a {  b {x}{y} c '' = ''`a { b`,x,y,`c`'' \<and>
   parseText ''Hello {name}!'' = ''`Hello`,name,`!`''"
proof -
  have h: "js_trim (collapse_ws ''a {  b {x}{y} c '') =
             assemble [(''a { b '', ''x''), ([], ''y'')] '' c''"
    "[(''a { b '', ''x''), ([], ''y'')] \<noteq> []" "spans_ok [(''a { b '', ''x''), ([], ''y'')] '' c''"
    "\<not> stray_wrapped (assemble [(''a { b '', ''x''), ([], ''y'')] '' c'')"
    by code_simp+
  have f: "js_join (fragments [(''a { b '', ''x''), ([], ''y'')] @ literal_fragment '' c'') =
           ''`a { b`,x,y,`c`''"
    by code_simp
  from interpolated_text_fragments[OF h] show ?thesis
    unfolding f .
qed

theorem interpolated_text_counterexample:
  "parseText ''Hello {name}!'' \<noteq> ''`Hello `,name,`!`''"
  by code_simp

text \<open>
  Outside the amended claim: on a text of the shape \<^verbatim>\<open>{u}\<close> with a stray opening brace the
  shortcut pattern matches, and the parser returns \<open>u\<close> as if it were an identifier.
\<close>

lemma stray_brace_shortcut:
  "stray_wrapped ''{a {b}'' \<and> parseText ''{a {b}'' = ''a {b''"
  by code_simp

lemma braces_in_literal_spans:
  "parseText ''{user.name} is {age}'' = ''`{user.name} is`,age''"
  by code_simp


section \<open>From the text to the children expression\<close>





























































end
